theory Spec2Isabelle
  imports Complex_Main
begin

section \<open>Exhibit assembly pipeline of the Visa Exhibit Generator (src/app.py)\<close>

text \<open>
  The development embeds \<^verbatim>\<open>generate_exhibits_v2.process_func\<close>, \<^verbatim>\<open>to_roman\<close> and
  \<^verbatim>\<open>get_pdf_page_count\<close> of \<^verbatim>\<open>src/app.py\<close>.

  Conventions of the embedding.
  \<^item> A Python \<^verbatim>\<open>str\<close> that carries text (exhibit numbers, file names, paths, messages) is a
    list of Unicode code points, \<open>pystr\<close>; \<open>S ''abc''\<close> is the literal. Identifiers that the source
    only compares with ASCII literals (step names, statuses, the numbering style) are HOL strings.
  \<^item> An exception is a value \<open>Exn kind message\<close>; a computation that may raise returns
    \<open>exn + 'a\<close> with \<open>Inl\<close> for the raise.
  \<^item> The pipeline mutates the processor (the calls \<^verbatim>\<open>update_step\<close>, \<^verbatim>\<open>set_step_progress\<close>,
    \<^verbatim>\<open>complete_step\<close>), the file system and the session state: these form the record \<open>pstate\<close>,
    passed through every step and returned also when the step raises.
  \<^item> Collaborators whose code is outside the repository's pipeline (compression, PDF handling,
    AI labelling, template rendering, the operating system) are the fields of the record \<open>env\<close>;
    each may raise. Constructors (\<^verbatim>\<open>PDFHandler\<close>, \<^verbatim>\<open>AIClassifier\<close>) and \<^verbatim>\<open>print\<close> are taken
    not to raise. The file system is a flat map from paths to the bytes of regular files,
    with the set of the paths that are directories.
  \<^item> Python floats are rationals; every float operation rounds its exact result with the
    function \<open>fl\<close> of the environment (the identity gives exact arithmetic).
\<close>

subsection \<open>Strings, exceptions, library functions\<close>

type_synonym pystr = "nat list"
type_synonym bytes = "nat list"

definition S :: "string \<Rightarrow> pystr" where
  "S s = map of_char s"

datatype exn = Exn (exn_kind: string) (exn_msg: pystr)

text \<open>\<^verbatim>\<open>chr(c)\<close>: the one-character string of code point \<open>c\<close>, ValueError outside the Unicode range.\<close>

definition py_chr :: "int \<Rightarrow> exn + pystr" where
  "py_chr c =
     (if 0 \<le> c \<and> c < 1114112 then Inr [nat c]
      else Inl (Exn ''ValueError'' (S ''chr() arg not in range(0x110000)'')))"

text \<open>\<^verbatim>\<open>str(k)\<close> of an integer: its decimal digits, most significant first.\<close>

fun dec_digits :: "nat \<Rightarrow> pystr" where
  "dec_digits n = (if n < 10 then [48 + n] else dec_digits (n div 10) @ [48 + n mod 10])"

declare dec_digits.simps [simp del]

definition py_str :: "int \<Rightarrow> pystr" where
  "py_str k = (if k < 0 then 45 # dec_digits (nat (- k)) else dec_digits (nat k))"

text \<open>\<^verbatim>\<open>os.path.join(a, b)\<close>, \<^verbatim>\<open>os.path.basename\<close> and \<^verbatim>\<open>os.path.isabs\<close> of posixpath; 47 is the slash.\<close>

definition path_join :: "pystr \<Rightarrow> pystr \<Rightarrow> pystr" where
  "path_join a b =
     (case b of
        c # _ \<Rightarrow> (if c = 47 then b
                  else if a = [] \<or> last a = 47 then a @ b else a @ [47] @ b)
      | [] \<Rightarrow> (if a = [] \<or> last a = 47 then a @ b else a @ [47] @ b))"

definition basename :: "pystr \<Rightarrow> pystr" where
  "basename p = rev (takeWhile (\<lambda>c. c \<noteq> 47) (rev p))"

definition isabs :: "pystr \<Rightarrow> bool" where
  "isabs p = (case p of c # _ \<Rightarrow> c = 47 | [] \<Rightarrow> False)"

subsection \<open>\<^verbatim>\<open>to_roman\<close> (src/app.py, lines 2476-2487)\<close>

definition val :: "int list" where
  "val = [1000, 900, 500, 400, 100, 90, 50, 40, 10, 9, 5, 4, 1]"

definition syms :: "pystr list" where
  "syms = map S [''M'', ''CM'', ''D'', ''CD'', ''C'', ''XC'', ''L'', ''XL'', ''X'', ''IX'', ''V'', ''IV'', ''I'']"

text \<open>The inner loop \<^verbatim>\<open>for _ in range(num // val[i])\<close>: the count is fixed when the loop starts.\<close>

fun to_roman_for :: "nat \<Rightarrow> nat \<Rightarrow> int \<times> pystr \<Rightarrow> int \<times> pystr" where
  "to_roman_for 0 i (num, roman_num) = (num, roman_num)"
| "to_roman_for (Suc k) i (num, roman_num) = to_roman_for k i (num - val ! i, roman_num @ syms ! i)"

text \<open>The outer loop \<^verbatim>\<open>while num > 0\<close>; reading \<^verbatim>\<open>val[i]\<close> past the table raises IndexError.\<close>

function to_roman_while :: "nat \<Rightarrow> int \<Rightarrow> pystr \<Rightarrow> exn + pystr" where
  "to_roman_while i num roman_num =
     (if num > 0 then
        (if i < length val then
           (case to_roman_for (nat (num div val ! i)) i (num, roman_num) of
              (num', roman_num') \<Rightarrow> to_roman_while (i + 1) num' roman_num')
         else Inl (Exn ''IndexError'' (S ''list index out of range'')))
      else Inr roman_num)"
  by pat_completeness auto
termination
  by (relation "measure (\<lambda>(i, num, roman_num). length val - i)") auto

declare to_roman_while.simps [simp del]

definition to_roman :: "int \<Rightarrow> exn + pystr" where
  "to_roman num = to_roman_while 0 num []"

subsection \<open>The exhibit number (lines 2231-2237)\<close>

definition exhibit_num :: "string \<Rightarrow> nat \<Rightarrow> exn + pystr" where
  "exhibit_num numbering_style i =
     (if numbering_style = ''letters'' then
        (if i < 26 then py_chr (65 + int i)
         else (case py_chr (65 + int i - 26) of
                 Inl e \<Rightarrow> Inl e
               | Inr c \<Rightarrow> Inr (S ''A'' @ c)))
      else if numbering_style = ''numbers'' then Inr (py_str (int i + 1))
      else to_roman (int i + 1))"

subsection \<open>Data of the pipeline\<close>

record upload =
  name :: pystr
  read :: bytes

text \<open>An entry of \<^verbatim>\<open>zip_files\<close>: a string, or any other object with its \<^verbatim>\<open>str()\<close> rendering.\<close>

datatype zip_entry = ZStr pystr | ZOther pystr

record config =
  visa_type :: pystr
  numbering_style :: string
  enable_compression :: bool
  quality_preset :: pystr
  smallpdf_api_key :: "pystr option"
  add_toc :: bool
  merge_pdfs :: bool
  add_cover_letter :: bool
  add_filing_instructions :: bool
  include_full_text_images :: bool

text \<open>The dictionary returned by \<^verbatim>\<open>compressor.compress\<close>; an absent key is \<open>None\<close>.\<close>

record comp_result =
  cr_success :: bool
  cr_original_size :: "int option"
  cr_compressed_size :: "int option"
  cr_reduction_percent :: "rat option"
  cr_method :: "pystr option"

record analysis =
  an_summary :: "pystr option"
  an_document_type :: "pystr option"
  an_dates :: "pystr list option"
  an_forms :: "pystr list option"
  an_visa_mentions :: "pystr list option"
  an_entities :: "pystr list option"

record compression =
  reduction :: rat
  cmethod :: pystr

record exhibit_info =
  number :: pystr
  title :: pystr
  filename :: pystr
  pages :: nat
  analysis :: "analysis option"
  summary :: "pystr option"
  document_type :: "pystr option"
  dates :: "pystr list option"
  forms :: "pystr list option"
  visa_mentions :: "pystr list option"
  entities :: "pystr list option"
  compression :: "compression option"

text \<open>The dictionary \<^verbatim>\<open>result\<close> (lines 2165-2171); the two path keys are absent until set.\<close>

record result =
  exhibits :: "exhibit_info list"
  total_pages :: nat
  original_size :: int
  compressed_size :: int
  output_file :: "pystr option"
  cover_letter_path :: "pystr option"
  filing_instructions_path :: "pystr option"

record compression_stats =
  cs_original_size :: int
  cs_compressed_size :: int
  avg_reduction :: rat
  cs_method :: pystr
  quality :: pystr

text \<open>A call of the pipeline on the processor \<^verbatim>\<open>proc\<close>.\<close>

datatype event =
    UpdateStep string string "pystr option"
  | SetStepProgress string rat
  | CompleteStep string

type_synonym fs = "pystr \<Rightarrow> bytes option"

record pstate =
  events :: "event list"
  disk :: fs
  ss_exhibit_list :: "exhibit_info list option"
  ss_compression_stats :: "compression_stats option"
  ss_exhibits_generated :: bool

record env =
  fl :: "rat \<Rightarrow> rat"
  mkdtemp :: "exn + pystr"
  gettempdir :: pystr
  timestamp :: pystr
  is_dir :: "pystr \<Rightarrow> bool"
  writable :: "pystr \<Rightarrow> bool"
  readable :: "pystr \<Rightarrow> bool"
  has_compressor :: bool
  compress :: "fs \<Rightarrow> pystr \<Rightarrow> (exn + comp_result) \<times> fs"
  pdf_reader_pages :: "fs \<Rightarrow> pystr \<Rightarrow> exn + nat"
  path_stem :: "pystr \<Rightarrow> pystr"
  generate_short_label :: "bytes \<Rightarrow> pystr \<Rightarrow> pystr \<Rightarrow> exn + pystr option"
  analyze_pdf :: "bytes \<Rightarrow> pystr \<Rightarrow> pystr \<Rightarrow> exn + analysis option"
  extract_text_from_pdf :: "bytes \<Rightarrow> exn + pystr option"
  add_exhibit_number_with_cover ::
    "fs \<Rightarrow> pystr \<Rightarrow> pystr \<Rightarrow> pystr option \<Rightarrow> pystr option \<Rightarrow> pystr option \<Rightarrow> bytes option
       \<Rightarrow> (exn + pystr) \<times> fs"
  generate_table_of_contents :: "fs \<Rightarrow> exhibit_info list \<Rightarrow> pystr \<Rightarrow> pystr \<Rightarrow> (exn + pystr) \<times> fs"
  generate_cover_letter :: "fs \<Rightarrow> exhibit_info list \<Rightarrow> pystr \<Rightarrow> exn option \<times> fs"
  generate_filing_instructions :: "fs \<Rightarrow> exhibit_info list \<Rightarrow> pystr \<Rightarrow> exn option \<times> fs"
  pdf_merge_pdfs :: "fs \<Rightarrow> pystr list \<Rightarrow> pystr \<Rightarrow> (exn + pystr) \<times> fs"

subsection \<open>Processor calls, file operations, float arithmetic\<close>

definition update_step :: "pstate \<Rightarrow> string \<Rightarrow> string \<Rightarrow> pystr option \<Rightarrow> pstate" where
  "update_step s step status error_message =
     s\<lparr>events := events s @ [UpdateStep step status error_message]\<rparr>"

definition set_step_progress :: "pstate \<Rightarrow> string \<Rightarrow> rat \<Rightarrow> pstate" where
  "set_step_progress s step p = s\<lparr>events := events s @ [SetStepProgress step p]\<rparr>"

definition complete_step :: "pstate \<Rightarrow> string \<Rightarrow> pstate" where
  "complete_step s step = s\<lparr>events := events s @ [CompleteStep step]\<rparr>"

text \<open>
  The file system.  A disk \<open>d\<close> of type \<open>fs\<close> holds the regular files with their bytes.  The
  directories, and the other paths that exist without being regular files, are the paths of
  \<open>is_dir\<close>: the pipeline creates and removes none of them.  \<open>writable\<close> and \<open>readable\<close> tell
  whether \<^verbatim>\<open>open(path, 'wb')\<close> and \<^verbatim>\<open>open(path, 'rb')\<close> are permitted on a path that is no
  directory.  A path is taken as it is written: there are no links, and one file has one path.
\<close>

text \<open>\<^verbatim>\<open>os.path.exists(path)\<close>: true of a regular file and of a directory.\<close>

definition exists :: "env \<Rightarrow> fs \<Rightarrow> pystr \<Rightarrow> bool" where
  "exists E d path = (d path \<noteq> None \<or> is_dir E path)"

text \<open>\<^verbatim>\<open>with open(path, 'wb') as f: f.write(data)\<close>; opening a directory raises.\<close>

definition write_file :: "env \<Rightarrow> fs \<Rightarrow> pystr \<Rightarrow> bytes \<Rightarrow> exn + fs" where
  "write_file E d path data =
     (if is_dir E path then Inl (Exn ''IsADirectoryError'' path)
      else if writable E path then Inr (d(path \<mapsto> data))
      else Inl (Exn ''OSError'' path))"

text \<open>
  \<^verbatim>\<open>shutil.copy(src, dst)\<close>: \<^verbatim>\<open>copyfile\<close> refuses to copy a file onto itself, opens the source
  for reading, which raises for a directory, for a missing file and for a file that may not be
  read, and opens the destination for writing.  The two destinations of the pipeline are new
  names, one in the directory that \<^verbatim>\<open>mkdtemp\<close> has just made and one under a time stamp; for a
  destination that is a directory all the same, the copy into that directory is not modelled:
  opening it for writing raises.
\<close>

definition copy :: "env \<Rightarrow> fs \<Rightarrow> pystr \<Rightarrow> pystr \<Rightarrow> exn + fs" where
  "copy E d src dst =
     (if src = dst \<and> exists E d src then Inl (Exn ''SameFileError'' src)
      else if is_dir E src then Inl (Exn ''IsADirectoryError'' src)
      else
        (case d src of
           None \<Rightarrow> Inl (Exn ''FileNotFoundError'' src)
         | Some data \<Rightarrow>
             (if readable E src then write_file E d dst data
              else Inl (Exn ''PermissionError'' src))))"

text \<open>
  \<^verbatim>\<open>with open(path, 'rb') as f: f.read()\<close>: the bytes of the file, \<open>None\<close> when \<^verbatim>\<open>open\<close> raises.
\<close>

definition read_file :: "env \<Rightarrow> fs \<Rightarrow> pystr \<Rightarrow> bytes option" where
  "read_file E d path = (if is_dir E path \<or> \<not> readable E path then None else d path)"

text \<open>The progress expression \<^verbatim>\<open>a / b * 100\<close> on integers: a float division, then a float product.\<close>

definition percent :: "env \<Rightarrow> int \<Rightarrow> int \<Rightarrow> exn + rat" where
  "percent E a b =
     (if b = 0 then Inl (Exn ''ZeroDivisionError'' (S ''division by zero''))
      else Inr (fl E (fl E (of_int a / of_int b) * 100)))"

subsection \<open>\<^verbatim>\<open>get_pdf_page_count\<close> (lines 2466-2473)\<close>

definition get_pdf_page_count :: "env \<Rightarrow> fs \<Rightarrow> pystr \<Rightarrow> nat" where
  "get_pdf_page_count E d pdf_path =
     (case pdf_reader_pages E d pdf_path of Inl e \<Rightarrow> 0 | Inr n \<Rightarrow> n)"

subsection \<open>Step 1: extract (lines 2177-2199)\<close>

fun extract_files ::
  "env \<Rightarrow> pystr \<Rightarrow> nat \<Rightarrow> nat \<Rightarrow> upload list \<Rightarrow> pystr list \<Rightarrow> pstate \<Rightarrow> pstate \<times> (exn + pystr list)"
where
  "extract_files E tmp_dir n i [] file_paths s = (s, Inr file_paths)"
| "extract_files E tmp_dir n i (file # rest) file_paths s =
     (let file_path = path_join tmp_dir (name file) in
      case write_file E (disk s) file_path (read file) of
        Inl e \<Rightarrow> (s, Inl e)
      | Inr d \<Rightarrow>
          (case percent E (int i + 1) (max (int n) 1) of
             Inl e \<Rightarrow> (s\<lparr>disk := d\<rparr>, Inl e)
           | Inr p \<Rightarrow>
               extract_files E tmp_dir n (i + 1) rest (file_paths @ [file_path])
                 (set_step_progress (s\<lparr>disk := d\<rparr>) ''extract'' p)))"

fun extract_zips ::
  "env \<Rightarrow> pystr \<Rightarrow> zip_entry list \<Rightarrow> pystr list \<Rightarrow> pstate \<Rightarrow> pstate \<times> (exn + pystr list)"
where
  "extract_zips E tmp_dir [] file_paths s = (s, Inr file_paths)"
| "extract_zips E tmp_dir (z # rest) file_paths s =
     (case z of
        ZOther r \<Rightarrow>
          extract_zips E tmp_dir rest file_paths
            (update_step s ''extract'' ''error'' (Some (S ''Invalid zip file path: '' @ r)))
      | ZStr file_path \<Rightarrow>
          (if \<not> isabs file_path then
             extract_zips E tmp_dir rest file_paths
               (update_step s ''extract'' ''error'' (Some (S ''Invalid zip file path: '' @ file_path)))
           else if exists E (disk s) file_path then
             (let dest = path_join tmp_dir (basename file_path) in
              case copy E (disk s) file_path dest of
                Inl e \<Rightarrow> (s, Inl e)
              | Inr d \<Rightarrow> extract_zips E tmp_dir rest (file_paths @ [dest]) (s\<lparr>disk := d\<rparr>))
           else
             extract_zips E tmp_dir rest file_paths
               (update_step s ''extract'' ''error'' (Some (S ''Zip file not found: '' @ file_path)))))"

definition step_extract ::
  "env \<Rightarrow> pystr \<Rightarrow> upload list \<Rightarrow> zip_entry list \<Rightarrow> pstate \<Rightarrow> pstate \<times> (exn + pystr list)"
where
  "step_extract E tmp_dir files zip_files s =
     (case extract_files E tmp_dir (length files) 0 files [] (update_step s ''extract'' ''running'' None) of
        (s1, Inl e) \<Rightarrow> (s1, Inl e)
      | (s1, Inr file_paths) \<Rightarrow>
          (case extract_zips E tmp_dir zip_files file_paths s1 of
             (s2, Inl e) \<Rightarrow> (s2, Inl e)
           | (s2, Inr file_paths') \<Rightarrow> (complete_step s2 ''extract'', Inr file_paths')))"

subsection \<open>Step 2: compress (lines 2201-2220)\<close>

text \<open>\<^verbatim>\<open>d.get(key, default)\<close> on a key that is absent or present.\<close>

definition get_or :: "'a \<Rightarrow> 'a option \<Rightarrow> 'a" where
  "get_or dflt x = (case x of None \<Rightarrow> dflt | Some v \<Rightarrow> v)"

fun compress_loop ::
  "env \<Rightarrow> nat \<Rightarrow> nat \<Rightarrow> pystr list \<Rightarrow> comp_result list \<Rightarrow> result \<Rightarrow> pstate
     \<Rightarrow> pstate \<times> (exn + comp_result list \<times> result)"
where
  "compress_loop E n i [] compression_results res s = (s, Inr (compression_results, res))"
| "compress_loop E n i (file_path # rest) compression_results res s =
     (case compress E (disk s) file_path of
        (Inl e, d) \<Rightarrow> (s\<lparr>disk := d\<rparr>, Inl e)
      | (Inr comp_result, d) \<Rightarrow>
          (let compression_results' =
                 (if cr_success comp_result then compression_results @ [comp_result]
                  else compression_results);
               res' =
                 (if cr_success comp_result then
                    res\<lparr>original_size := original_size res + get_or 0 (cr_original_size comp_result),
                        compressed_size := compressed_size res + get_or 0 (cr_compressed_size comp_result)\<rparr>
                  else res)
           in case percent E (int i + 1) (int n) of
                Inl e \<Rightarrow> (s\<lparr>disk := d\<rparr>, Inl e)
              | Inr p \<Rightarrow>
                  compress_loop E n (i + 1) rest compression_results' res'
                    (set_step_progress (s\<lparr>disk := d\<rparr>) ''compress'' p)))"

definition step_compress ::
  "env \<Rightarrow> config \<Rightarrow> pystr list \<Rightarrow> result \<Rightarrow> pstate \<Rightarrow> pstate \<times> (exn + comp_result list \<times> result)"
where
  "step_compress E cfg file_paths res s =
     (if enable_compression cfg \<and> has_compressor E then
        (case compress_loop E (length file_paths) 0 file_paths [] res
                (update_step s ''compress'' ''running'' None) of
           (s1, Inl e) \<Rightarrow> (s1, Inl e)
         | (s1, Inr out) \<Rightarrow> (complete_step s1 ''compress'', Inr out))
      else (complete_step s ''compress'', Inr ([], res)))"

subsection \<open>Step 3: number (lines 2222-2308)\<close>

text \<open>
  The first \<^verbatim>\<open>try\<close> of the loop body (lines 2250-2269). The variable \<^verbatim>\<open>content_bytes\<close> is
  assigned inside it and keeps its value from an earlier iteration (or stays unbound, \<open>None\<close>)
  when \<^verbatim>\<open>open\<close> raises. A label is used when it is truthy; the collaborator's falsy
  analysis (\<^verbatim>\<open>None\<close> or an empty dictionary) is \<open>None\<close>.
\<close>

definition ai_analysis ::
  "env \<Rightarrow> config \<Rightarrow> fs \<Rightarrow> pystr \<Rightarrow> exhibit_info \<Rightarrow> bytes option \<Rightarrow> exhibit_info \<times> bytes option"
where
  "ai_analysis E cfg d file_path info content_bytes =
     (case read_file E d file_path of
        None \<Rightarrow> (info, content_bytes)
      | Some b \<Rightarrow>
          (case generate_short_label E b (filename info) (visa_type cfg) of
             Inl e \<Rightarrow> (info, Some b)
           | Inr short_label \<Rightarrow>
               (case analyze_pdf E b (filename info) (visa_type cfg) of
                  Inl e \<Rightarrow> (info, Some b)
                | Inr an \<Rightarrow>
                    (let info1 =
                           (case short_label of
                              None \<Rightarrow> info
                            | Some l \<Rightarrow> (if l = [] then info else info\<lparr>title := l\<rparr>));
                         info2 =
                           (case an of
                              None \<Rightarrow> info1
                            | Some a \<Rightarrow>
                                info1\<lparr>analysis := Some a,
                                      summary := an_summary a,
                                      document_type := an_document_type a,
                                      dates := an_dates a,
                                      forms := an_forms a,
                                      visa_mentions := an_visa_mentions a,
                                      entities := an_entities a\<rparr>)
                     in (info2, Some b)))))"

text \<open>
  The second \<^verbatim>\<open>try\<close> (lines 2272-2293): the cover with title and summary and, when it raises
  (also by reading the unbound \<^verbatim>\<open>content_bytes\<close>), the cover with the number only, whose
  exception is not caught.
\<close>

definition numbered_file_of ::
  "env \<Rightarrow> config \<Rightarrow> fs \<Rightarrow> pystr \<Rightarrow> pystr \<Rightarrow> exhibit_info \<Rightarrow> bytes option \<Rightarrow> (exn + pystr) \<times> fs"
where
  "numbered_file_of E cfg d file_path num info content_bytes =
     (let attempt =
            (if include_full_text_images cfg then
               (case content_bytes of
                  None \<Rightarrow> (Inl (Exn ''NameError'' (S ''name 'content_bytes' is not defined'')), d)
                | Some b \<Rightarrow>
                    (let extracted_text =
                           (case extract_text_from_pdf E b of Inl e \<Rightarrow> None | Inr t \<Rightarrow> t)
                     in add_exhibit_number_with_cover E d file_path num
                          (Some (title info)) (summary info) extracted_text (Some b)))
             else add_exhibit_number_with_cover E d file_path num
                    (Some (title info)) (summary info) None None)
      in case attempt of
           (Inr numbered_file, d1) \<Rightarrow> (Inr numbered_file, d1)
         | (Inl e, d1) \<Rightarrow> add_exhibit_number_with_cover E d1 file_path num None None None None)"

definition initial_info :: "env \<Rightarrow> fs \<Rightarrow> pystr \<Rightarrow> pystr \<Rightarrow> exhibit_info" where
  "initial_info E d file_path num =
     \<lparr>number = num, title = path_stem E file_path, filename = basename file_path,
      pages = get_pdf_page_count E d file_path,
      analysis = None, summary = None, document_type = None, dates = None, forms = None,
      visa_mentions = None, entities = None, compression = None\<rparr>"

fun number_loop ::
  "env \<Rightarrow> config \<Rightarrow> nat \<Rightarrow> comp_result list \<Rightarrow> nat \<Rightarrow> pystr list
     \<Rightarrow> pystr list \<times> exhibit_info list \<times> result \<times> bytes option \<Rightarrow> pstate
     \<Rightarrow> pstate \<times> (exn + pystr list \<times> exhibit_info list \<times> result)"
where
  "number_loop E cfg n compression_results i [] (numbered_files, exhibit_list, res, content_bytes) s =
     (s, Inr (numbered_files, exhibit_list, res))"
| "number_loop E cfg n compression_results i (file_path # rest)
       (numbered_files, exhibit_list, res, content_bytes) s =
     (case exhibit_num (numbering_style cfg) i of
        Inl e \<Rightarrow> (s, Inl e)
      | Inr num \<Rightarrow>
          (case ai_analysis E cfg (disk s) file_path (initial_info E (disk s) file_path num)
                  content_bytes of
             (info, content_bytes') \<Rightarrow>
               (case numbered_file_of E cfg (disk s) file_path num info content_bytes' of
                  (Inl e, d) \<Rightarrow> (s\<lparr>disk := d\<rparr>, Inl e)
                | (Inr numbered_file, d) \<Rightarrow>
                    (let info' =
                           (if i < length compression_results then
                              info\<lparr>compression :=
                                     Some \<lparr>reduction =
                                              get_or 0 (cr_reduction_percent (compression_results ! i)),
                                           cmethod =
                                              get_or (S ''none'') (cr_method (compression_results ! i))\<rparr>\<rparr>
                            else info)
                     in case percent E (int i + 1) (int n) of
                          Inl e \<Rightarrow> (s\<lparr>disk := d\<rparr>, Inl e)
                        | Inr p \<Rightarrow>
                            number_loop E cfg n compression_results (i + 1) rest
                              (numbered_files @ [numbered_file], exhibit_list @ [info'],
                               res\<lparr>total_pages := total_pages res + pages info'\<rparr>, content_bytes')
                              (set_step_progress (s\<lparr>disk := d\<rparr>) ''number'' p)))))"

definition step_number ::
  "env \<Rightarrow> config \<Rightarrow> pystr list \<Rightarrow> comp_result list \<Rightarrow> result \<Rightarrow> pstate
     \<Rightarrow> pstate \<times> (exn + pystr list \<times> exhibit_info list \<times> result)"
where
  "step_number E cfg file_paths compression_results res s =
     (case number_loop E cfg (length file_paths) compression_results 0 file_paths ([], [], res, None)
             (update_step s ''number'' ''running'' None) of
        (s1, Inl e) \<Rightarrow> (s1, Inl e)
      | (s1, Inr out) \<Rightarrow> (complete_step s1 ''number'', Inr out))"

subsection \<open>Steps 4 to 8: toc, cover, filing instructions, merge, finalize (lines 2310-2458)\<close>

definition step_toc ::
  "env \<Rightarrow> config \<Rightarrow> pystr \<Rightarrow> exhibit_info list \<Rightarrow> pystr list \<Rightarrow> pstate \<Rightarrow> pstate \<times> (exn + pystr list)"
where
  "step_toc E cfg tmp_dir exhibit_list numbered_files s =
     (if add_toc cfg then
        (let s1 = update_step s ''toc'' ''running'' None in
         case generate_table_of_contents E (disk s1) exhibit_list (visa_type cfg)
                (path_join tmp_dir (S ''TOC.pdf'')) of
           (Inl e, d) \<Rightarrow> (s1\<lparr>disk := d\<rparr>, Inl e)
         | (Inr toc_file, d) \<Rightarrow>
             (complete_step (s1\<lparr>disk := d\<rparr>) ''toc'', Inr (toc_file # numbered_files)))
      else (complete_step s ''toc'', Inr numbered_files))"

text \<open>
  The body of the \<^verbatim>\<open>try\<close> of step 5 (case context, template engine, rendering) is the
  collaborator \<open>generate_cover_letter\<close>; every exception of it is caught.
\<close>

definition step_cover ::
  "env \<Rightarrow> config \<Rightarrow> pystr \<Rightarrow> exhibit_info list \<Rightarrow> result \<Rightarrow> pstate \<Rightarrow> pstate \<times> result"
where
  "step_cover E cfg tmp_dir exhibit_list res s =
     (if add_cover_letter cfg then
        (let s1 = update_step s ''cover'' ''running'' None;
             cover_letter_path = path_join tmp_dir (S ''Cover_Letter.docx'')
         in case generate_cover_letter E (disk s1) exhibit_list cover_letter_path of
              (None, d) \<Rightarrow>
                (complete_step (s1\<lparr>disk := d\<rparr>) ''cover'',
                 res\<lparr>cover_letter_path := Some cover_letter_path\<rparr>)
            | (Some e, d) \<Rightarrow>
                (complete_step (s1\<lparr>disk := d\<rparr>) ''cover'', res\<lparr>cover_letter_path := None\<rparr>))
      else (complete_step s ''cover'', res))"

definition step_filing_instructions ::
  "env \<Rightarrow> config \<Rightarrow> pystr \<Rightarrow> exhibit_info list \<Rightarrow> result \<Rightarrow> pstate \<Rightarrow> pstate \<times> result"
where
  "step_filing_instructions E cfg tmp_dir exhibit_list res s =
     (let s1 = update_step s ''filing_instructions'' ''running'' None in
      if add_filing_instructions cfg then
        (let filing_path = path_join tmp_dir (S ''Filing_Instructions.docx'') in
         case generate_filing_instructions E (disk s1) exhibit_list filing_path of
           (None, d) \<Rightarrow>
             (complete_step (s1\<lparr>disk := d\<rparr>) ''filing_instructions'',
              res\<lparr>filing_instructions_path := Some filing_path\<rparr>)
         | (Some e, d) \<Rightarrow>
             (complete_step (s1\<lparr>disk := d\<rparr>) ''filing_instructions'',
              res\<lparr>filing_instructions_path := None\<rparr>))
      else (complete_step s1 ''filing_instructions'', res))"

text \<open>The persistent location \<^verbatim>\<open>exhibit_package_<timestamp>.pdf\<close> in the system's temporary directory.\<close>

definition final_output_path :: "env \<Rightarrow> pystr" where
  "final_output_path E =
     path_join (gettempdir E) (S ''exhibit_package_'' @ timestamp E @ S ''.pdf'')"

definition step_merge ::
  "env \<Rightarrow> config \<Rightarrow> pystr \<Rightarrow> pystr list \<Rightarrow> result \<Rightarrow> pstate \<Rightarrow> pstate \<times> (exn + result)"
where
  "step_merge E cfg tmp_dir numbered_files res s =
     (let s1 = update_step s ''merge'' ''running'' None in
      case numbered_files of
        [] \<Rightarrow> (complete_step s1 ''merge'', Inr (res\<lparr>output_file := None\<rparr>))
      | first_file # _ \<Rightarrow>
          (if merge_pdfs cfg then
             (let output_file' = path_join tmp_dir (S ''final_package.pdf'') in
              case pdf_merge_pdfs E (disk s1) numbered_files output_file' of
                (Inl e, d) \<Rightarrow> (s1\<lparr>disk := d\<rparr>, Inl e)
              | (Inr merged_file, d) \<Rightarrow>
                  (case copy E d merged_file (final_output_path E) of
                     Inl e \<Rightarrow> (s1\<lparr>disk := d\<rparr>, Inl e)
                   | Inr d' \<Rightarrow>
                       (complete_step (s1\<lparr>disk := d'\<rparr>) ''merge'',
                        Inr (res\<lparr>output_file := Some (final_output_path E)\<rparr>))))
           else
             (case copy E (disk s1) first_file (final_output_path E) of
                Inl e \<Rightarrow> (s1, Inl e)
              | Inr d' \<Rightarrow>
                  (complete_step (s1\<lparr>disk := d'\<rparr>) ''merge'',
                   Inr (res\<lparr>output_file := Some (final_output_path E)\<rparr>)))))"

text \<open>
  The expression of lines 2444-2447,
  \<^verbatim>\<open>(1 - compressed / max(original, 1)) * 100 if original > 0 else 0\<close>.
\<close>

definition avg_reduction_of :: "env \<Rightarrow> result \<Rightarrow> rat" where
  "avg_reduction_of E res =
     (if original_size res > 0 then
        fl E (fl E (1 - fl E (of_int (compressed_size res) / of_int (max (original_size res) 1))) * 100)
      else 0)"

definition step_finalize ::
  "env \<Rightarrow> config \<Rightarrow> exhibit_info list \<Rightarrow> comp_result list \<Rightarrow> result \<Rightarrow> pstate \<Rightarrow> pstate \<times> result"
where
  "step_finalize E cfg exhibit_list compression_results res s =
     (let s1 = update_step s ''finalize'' ''running'' None;
          s2 = s1\<lparr>ss_exhibit_list := Some exhibit_list\<rparr>;
          s3 = (case compression_results of
                  [] \<Rightarrow> s2
                | first # _ \<Rightarrow>
                    s2\<lparr>ss_compression_stats :=
                         Some \<lparr>cs_original_size = original_size res,
                               cs_compressed_size = compressed_size res,
                               avg_reduction = avg_reduction_of E res,
                               cs_method = get_or (S ''unknown'') (cr_method first),
                               quality = quality_preset cfg\<rparr>\<rparr>);
          s4 = s3\<lparr>ss_exhibits_generated := True\<rparr>
      in (complete_step s4 ''finalize'', res))"

subsection \<open>\<^verbatim>\<open>process_func\<close> (lines 2161-2461)\<close>

definition result0 :: result where
  "result0 =
     \<lparr>exhibits = [], total_pages = 0, original_size = 0, compressed_size = 0, output_file = None,
      cover_letter_path = None, filing_instructions_path = None\<rparr>"

text \<open>The body of the outer \<^verbatim>\<open>try\<close>.\<close>

definition process_body ::
  "env \<Rightarrow> config \<Rightarrow> upload list \<Rightarrow> zip_entry list \<Rightarrow> pystr \<Rightarrow> pstate \<Rightarrow> pstate \<times> (exn + result)"
where
  "process_body E cfg files zip_files tmp_dir s =
     (case step_extract E tmp_dir files zip_files s of
        (s1, Inl e) \<Rightarrow> (s1, Inl e)
      | (s1, Inr file_paths) \<Rightarrow>
     (case step_compress E cfg file_paths result0 s1 of
        (s2, Inl e) \<Rightarrow> (s2, Inl e)
      | (s2, Inr (compression_results, res2)) \<Rightarrow>
     (case step_number E cfg file_paths compression_results res2 s2 of
        (s3, Inl e) \<Rightarrow> (s3, Inl e)
      | (s3, Inr (numbered_files, exhibit_list, res3)) \<Rightarrow>
     (case step_toc E cfg tmp_dir exhibit_list numbered_files s3 of
        (s4, Inl e) \<Rightarrow> (s4, Inl e)
      | (s4, Inr numbered_files') \<Rightarrow>
     (case step_cover E cfg tmp_dir exhibit_list res3 s4 of
        (s5, res5) \<Rightarrow>
     (case step_filing_instructions E cfg tmp_dir exhibit_list res5 s5 of
        (s6, res6) \<Rightarrow>
     (case step_merge E cfg tmp_dir numbered_files' res6 s6 of
        (s7, Inl e) \<Rightarrow> (s7, Inl e)
      | (s7, Inr res7) \<Rightarrow>
     (case step_finalize E cfg exhibit_list compression_results res7 s7 of
        (s8, res8) \<Rightarrow> (s8, Inr res8)))))))))"

text \<open>
  The temporary directory is created before the \<^verbatim>\<open>try\<close>; an exception of the body is
  re-raised as \<^verbatim>\<open>RuntimeError(f"Failed to process exhibits: {e}")\<close>.
\<close>

definition process_func ::
  "env \<Rightarrow> config \<Rightarrow> upload list \<Rightarrow> zip_entry list \<Rightarrow> pstate \<Rightarrow> pstate \<times> (exn + result)"
where
  "process_func E cfg files zip_files s =
     (case mkdtemp E of
        Inl e \<Rightarrow> (s, Inl e)
      | Inr tmp_dir \<Rightarrow>
          (case process_body E cfg files zip_files tmp_dir s of
             (s', Inl e) \<Rightarrow>
               (s', Inl (Exn ''RuntimeError'' (S ''Failed to process exhibits: '' @ exn_msg e)))
           | (s', Inr res) \<Rightarrow> (s', Inr res)))"

text \<open>
  \<^verbatim>\<open>generate_exhibits_v2\<close> resets the processor before it starts the run: the run begins with
  no recorded call.
\<close>

definition fresh :: "pstate \<Rightarrow> pstate" where
  "fresh s = s\<lparr>events := []\<rparr>"

subsection \<open>Notions of the specification\<close>

text \<open>
  Modelled from the spec: \<^verbatim>\<open>BackgroundProcessor.start_processing\<close> of
  \<^verbatim>\<open>components/background_processor.py\<close>, which is not among the sources. It runs the pipeline
  function once; an exception of it sets the overall status to \<^verbatim>\<open>error\<close> with the
  exception's message and attaches no result, a return attaches the result and the status is
  \<^verbatim>\<open>complete\<close>.
\<close>

definition overall_status :: "exn + result \<Rightarrow> string" where
  "overall_status outcome = (case outcome of Inl e \<Rightarrow> ''error'' | Inr res \<Rightarrow> ''complete'')"

text \<open>
  Modelled from the spec: the status a step has after a sequence of processor calls, again of
  \<^verbatim>\<open>components/background_processor.py\<close>. \<^verbatim>\<open>update_step\<close> creates the step if absent and sets
  its status, \<^verbatim>\<open>complete_step(name)\<close> is \<^verbatim>\<open>update_step(name, complete)\<close>, and
  \<^verbatim>\<open>set_step_progress\<close> leaves the status alone. A step never touched has no status.
\<close>

fun statuses :: "(string \<Rightarrow> string option) \<Rightarrow> event list \<Rightarrow> (string \<Rightarrow> string option)" where
  "statuses st [] = st"
| "statuses st (UpdateStep n status msg # es) = statuses (st(n := Some status)) es"
| "statuses st (SetStepProgress n p # es) = statuses st es"
| "statuses st (CompleteStep n # es) = statuses (st(n := Some ''complete'')) es"

text \<open>Every call of \<^verbatim>\<open>complete_step\<close> in a trace, with the status its step has at the call.\<close>

fun complete_calls :: "(string \<Rightarrow> string option) \<Rightarrow> event list \<Rightarrow> (string \<times> string option) list" where
  "complete_calls st [] = []"
| "complete_calls st (UpdateStep n status msg # es) = complete_calls (st(n := Some status)) es"
| "complete_calls st (SetStepProgress n p # es) = complete_calls st es"
| "complete_calls st (CompleteStep n # es) = (n, st n) # complete_calls (st(n := Some ''complete'')) es"

text \<open>The percent values passed to \<^verbatim>\<open>set_step_progress\<close> for one step, in the order of the calls.\<close>

fun progress_values :: "string \<Rightarrow> event list \<Rightarrow> rat list" where
  "progress_values n [] = []"
| "progress_values n (SetStepProgress m p # es) =
     (if m = n then p # progress_values n es else progress_values n es)"
| "progress_values n (e # es) = progress_values n es"

text \<open>The steps completed in a trace, in the order of the \<^verbatim>\<open>complete_step\<close> calls.\<close>

fun completed :: "event list \<Rightarrow> string list" where
  "completed [] = []"
| "completed (CompleteStep n # es) = n # completed es"
| "completed (e # es) = completed es"

fun step_of :: "event \<Rightarrow> string" where
  "step_of (UpdateStep n status msg) = n"
| "step_of (SetStepProgress n p) = n"
| "step_of (CompleteStep n) = n"

text \<open>
  The standard bijective base-26 letter sequence A, ..., Z, AA, AB, ..., AZ, BA, ... by
  0-indexed position.
\<close>

function bijective26 :: "nat \<Rightarrow> pystr" where
  "bijective26 i = (if i < 26 then [65 + i] else bijective26 (i div 26 - 1) @ [65 + i mod 26])"
  by pat_completeness auto
termination
  by (relation "measure (\<lambda>i. i)") auto

declare bijective26.simps [simp del]

text \<open>
  The canonical subtractive roman numeral: one block per decimal digit, thousands as
  repeated M.
\<close>

definition hundreds :: "pystr list" where
  "hundreds = map S ['''', ''C'', ''CC'', ''CCC'', ''CD'', ''D'', ''DC'', ''DCC'', ''DCCC'', ''CM'']"

definition tens :: "pystr list" where
  "tens = map S ['''', ''X'', ''XX'', ''XXX'', ''XL'', ''L'', ''LX'', ''LXX'', ''LXXX'', ''XC'']"

definition ones :: "pystr list" where
  "ones = map S ['''', ''I'', ''II'', ''III'', ''IV'', ''V'', ''VI'', ''VII'', ''VIII'', ''IX'']"

definition roman_canonical :: "nat \<Rightarrow> pystr" where
  "roman_canonical n =
     concat (replicate (n div 1000) (S ''M'')) @ hundreds ! (n div 100 mod 10)
       @ tens ! (n div 10 mod 10) @ ones ! (n mod 10)"

text \<open>The number a string of decimal digits denotes.\<close>

definition dec_value :: "pystr \<Rightarrow> nat" where
  "dec_value ds = foldl (\<lambda>a c. 10 * a + (c - 48)) 0 ds"

text \<open>The rounding of float operations: monotone, and exact on the three values below.\<close>

definition rounding :: "(rat \<Rightarrow> rat) \<Rightarrow> bool" where
  "rounding f = (mono f \<and> f 0 = 0 \<and> f 1 = 1 \<and> f 100 = 100)"

subsection \<open>Example runs\<close>

text \<open>
  An environment in which every collaborator succeeds: compression halves a 200-byte file,
  every PDF has two pages, the cover collaborator writes a copy beside the file, the merge
  collaborator concatenates.
\<close>

definition env_ok :: env where
  "env_ok =
     \<lparr>fl = (\<lambda>x. x),
      mkdtemp = Inr (S ''/tmp/run''),
      gettempdir = S ''/tmp'',
      timestamp = S ''20260101_120000'',
      is_dir = (\<lambda>p. p = S ''/tmp'' \<or> p = S ''/tmp/run''),
      writable = (\<lambda>p. True),
      readable = (\<lambda>p. True),
      has_compressor = True,
      compress = (\<lambda>d p. (Inr \<lparr>cr_success = True, cr_original_size = Some 200,
                               cr_compressed_size = Some 100, cr_reduction_percent = Some 50,
                               cr_method = Some (S ''ghostscript'')\<rparr>, d)),
      pdf_reader_pages = (\<lambda>d p. Inr 2),
      path_stem = basename,
      generate_short_label = (\<lambda>b f v. Inr None),
      analyze_pdf = (\<lambda>b f v. Inr None),
      extract_text_from_pdf = (\<lambda>b. Inr None),
      add_exhibit_number_with_cover =
        (\<lambda>d p num t su tx cb. (Inr (p @ S ''.numbered''), d(p @ S ''.numbered'' \<mapsto> get_or [] (d p)))),
      generate_table_of_contents = (\<lambda>d el v dest. (Inr dest, d(dest \<mapsto> S ''TOC''))),
      generate_cover_letter = (\<lambda>d el p. (None, d(p \<mapsto> S ''letter''))),
      generate_filing_instructions = (\<lambda>d el p. (None, d(p \<mapsto> S ''filing''))),
      pdf_merge_pdfs = (\<lambda>d ps out. (Inr out, d(out \<mapsto> concat (map (\<lambda>p. get_or [] (d p)) ps))))\<rparr>"

text \<open>The same, with a compression collaborator that raises on the file \<^verbatim>\<open>b.pdf\<close>.\<close>

definition env_compress_raises :: env where
  "env_compress_raises =
     env_ok\<lparr>compress :=
       (\<lambda>d p. if basename p = S ''b.pdf'' then (Inl (Exn ''OSError'' (S ''compression failed'')), d)
               else compress env_ok d p)\<rparr>"

text \<open>The same, with a compression collaborator that reports failure on \<^verbatim>\<open>b.pdf\<close> in its result.\<close>

definition env_compress_fails :: env where
  "env_compress_fails =
     env_ok\<lparr>compress :=
       (\<lambda>d p. if basename p = S ''b.pdf''
               then (Inr \<lparr>cr_success = False, cr_original_size = None, cr_compressed_size = None,
                          cr_reduction_percent = None, cr_method = None\<rparr>, d)
               else compress env_ok d p)\<rparr>"

definition cfg_default :: config where
  "cfg_default =
     \<lparr>visa_type = S ''O-1A'', numbering_style = ''letters'', enable_compression = True,
      quality_preset = S ''high'', smallpdf_api_key = None, add_toc = True, merge_pdfs = True,
      add_cover_letter = False, add_filing_instructions = False,
      include_full_text_images = False\<rparr>"

definition three_files :: "upload list" where
  "three_files =
     [\<lparr>name = S ''a.pdf'', read = S ''AAAA''\<rparr>, \<lparr>name = S ''b.pdf'', read = S ''BBBB''\<rparr>,
      \<lparr>name = S ''c.pdf'', read = S ''CCCC''\<rparr>]"

definition s_init :: pstate where
  "s_init =
     \<lparr>events = [], disk = Map.empty, ss_exhibit_list = None, ss_compression_stats = None,
      ss_exhibits_generated = False\<rparr>"

text \<open>Two uploads under one name, and a list of archive paths with three entries that step 1 rejects.\<close>

definition same_name_files :: "upload list" where
  "same_name_files =
     [\<lparr>name = S ''a.pdf'', read = S ''first''\<rparr>, \<lparr>name = S ''b.pdf'', read = S ''other''\<rparr>,
      \<lparr>name = S ''a.pdf'', read = S ''second''\<rparr>]"

definition mixed_zip_files :: "zip_entry list" where
  "mixed_zip_files =
     [ZStr (S ''/data/x.pdf''), ZStr (S ''relative/y.pdf''), ZStr (S ''/data/missing.pdf''),
      ZOther (S ''42''), ZStr (S ''/data/z.pdf'')]"

definition s_zip :: pstate where
  "s_zip = s_init\<lparr>disk := [S ''/data/x.pdf'' \<mapsto> S ''XX'', S ''/data/z.pdf'' \<mapsto> S ''ZZ'']\<rparr>"

subsection \<open>Auxiliary functions of the proofs\<close>

text \<open>
  One pass of the outer loop of \<^verbatim>\<open>to_roman\<close> for a table entry \<open>(value, symbol)\<close>: the symbol
  is appended \<open>num div value\<close> times and \<open>num mod value\<close> remains.
\<close>

definition stage :: "int \<times> pystr \<Rightarrow> int \<times> pystr \<Rightarrow> int \<times> pystr" where
  "stage acc vs =
     (fst acc mod fst vs, snd acc @ concat (replicate (nat (fst acc div fst vs)) (snd vs)))"

text \<open>The value of the progress expression for item \<open>k\<close> of \<open>n\<close>.\<close>

definition pct :: "env \<Rightarrow> nat \<Rightarrow> nat \<Rightarrow> rat" where
  "pct E k n = fl E (fl E (of_nat k / of_nat n) * 100)"

text \<open>The calls of a trace that concern one step.\<close>

definition about :: "string \<Rightarrow> event list \<Rightarrow> event list" where
  "about n tr = filter (\<lambda>e. step_of e = n) tr"

text \<open>
  The status at each \<^verbatim>\<open>complete_step\<close> call in the calls of one step, starting from a given
  status (the same bookkeeping as \<open>complete_calls\<close>, for a single step).
\<close>

fun complete_status :: "string option \<Rightarrow> event list \<Rightarrow> string option list" where
  "complete_status st [] = []"
| "complete_status st (UpdateStep n status msg # es) = complete_status (Some status) es"
| "complete_status st (SetStepProgress n p # es) = complete_status st es"
| "complete_status st (CompleteStep n # es) = st # complete_status (Some ''complete'') es"

text \<open>
  The status a step can have when the pipeline calls \<^verbatim>\<open>complete_step\<close> on it: \<^verbatim>\<open>running\<close> for
  the steps that are always announced; \<^verbatim>\<open>running\<close> or \<^verbatim>\<open>error\<close> for \<^verbatim>\<open>extract\<close>, which a
  rejected archive path sets to \<^verbatim>\<open>error\<close>; for \<^verbatim>\<open>compress\<close>, \<^verbatim>\<open>toc\<close> and \<^verbatim>\<open>cover\<close>,
  \<^verbatim>\<open>running\<close> when the feature is enabled and no status at all when it is not.
\<close>

definition allowed :: "env \<Rightarrow> config \<Rightarrow> string \<Rightarrow> string option \<Rightarrow> bool" where
  "allowed E cfg n x =
     (if n = ''extract'' then x = Some ''running'' \<or> x = Some ''error''
      else if n = ''compress'' then
        x = (if enable_compression cfg \<and> has_compressor E then Some ''running'' else None)
      else if n = ''toc'' then x = (if add_toc cfg then Some ''running'' else None)
      else if n = ''cover'' then x = (if add_cover_letter cfg then Some ''running'' else None)
      else x = Some ''running'')"

definition allowed_call :: "env \<Rightarrow> config \<Rightarrow> string \<times> string option \<Rightarrow> bool" where
  "allowed_call E cfg c = allowed E cfg (fst c) (snd c)"

text \<open>The requirement of the specification: \<^verbatim>\<open>complete_step\<close> only on a step that is running.\<close>

definition called_while_running :: "string \<times> string option \<Rightarrow> bool" where
  "called_while_running c = (snd c = Some ''running'')"

text \<open>Before a run no step has a status.\<close>

definition no_status :: "string \<Rightarrow> string option" where
  "no_status n = None"

definition in_range :: "rat \<Rightarrow> bool" where
  "in_range p = (0 \<le> p \<and> p \<le> 100)"

text \<open>
  What the proofs establish of the calls \<open>X\<close> one step makes: each \<^verbatim>\<open>complete_step\<close> finds an
  allowed status and, under a rounding float arithmetic, the progress values are sorted and
  within range. A state \<open>s'\<close> continues \<open>s\<close> by a segment of step \<open>N\<close> when its trace is that of \<open>s\<close>
  followed by such calls, all of them about \<open>N\<close>. The invariant \<open>inv\<close> of a trace: only steps
  of \<open>K\<close> occur, and the calls about each step have the local property.
\<close>

definition seg_local :: "env \<Rightarrow> config \<Rightarrow> string \<Rightarrow> event list \<Rightarrow> bool" where
  "seg_local E cfg n X =
     (list_all (allowed E cfg n) (complete_status None X)
      \<and> (rounding (fl E) \<longrightarrow> sorted (progress_values n X) \<and> list_all in_range (progress_values n X)))"

definition segment :: "env \<Rightarrow> config \<Rightarrow> string \<Rightarrow> pstate \<Rightarrow> pstate \<Rightarrow> bool" where
  "segment E cfg N s s' =
     (\<exists>X. events s' = events s @ X \<and> (\<forall>e\<in>set X. step_of e = N) \<and> seg_local E cfg N X)"

definition inv :: "(string \<Rightarrow> event list \<Rightarrow> bool) \<Rightarrow> string set \<Rightarrow> event list \<Rightarrow> bool" where
  "inv L K tr = ((\<forall>e\<in>set tr. step_of e \<in> K) \<and> (\<forall>n. L n (about n tr)))"

text \<open>The steps that have run after each of the eight steps.\<close>

definition K1 :: "string set" where "K1 = {''extract''}"
definition K2 :: "string set" where "K2 = insert ''compress'' K1"
definition K3 :: "string set" where "K3 = insert ''number'' K2"
definition K4 :: "string set" where "K4 = insert ''toc'' K3"
definition K5 :: "string set" where "K5 = insert ''cover'' K4"
definition K6 :: "string set" where "K6 = insert ''filing_instructions'' K5"
definition K7 :: "string set" where "K7 = insert ''merge'' K6"
definition K8 :: "string set" where "K8 = insert ''finalize'' K7"

text \<open>The eight steps in the order of execution.\<close>

definition step_names :: "string list" where
  "step_names = [''extract'', ''compress'', ''number'', ''toc'', ''cover'', ''filing_instructions'',
     ''merge'', ''finalize'']"

text \<open>
  The archive paths that pass both tests of the second loop of step 1 on a disk, and the messages
  reported for the others, in order.
\<close>

definition kept :: "env \<Rightarrow> fs \<Rightarrow> zip_entry list \<Rightarrow> pystr list" where
  "kept E d zs =
     concat (map (\<lambda>z. case z of
                         ZOther r \<Rightarrow> []
                       | ZStr p \<Rightarrow> if isabs p \<and> exists E d p then [p] else []) zs)"

definition reported :: "env \<Rightarrow> fs \<Rightarrow> zip_entry list \<Rightarrow> pystr list" where
  "reported E d zs =
     concat (map (\<lambda>z. case z of
                         ZOther r \<Rightarrow> [S ''Invalid zip file path: '' @ r]
                       | ZStr p \<Rightarrow>
                           if \<not> isabs p then [S ''Invalid zip file path: '' @ p]
                           else if exists E d p then []
                           else [S ''Zip file not found: '' @ p]) zs)"

text \<open>
  What the statement on compression failures asks of the collaborators other than the
  compressor, on the files of a run.  None of them removes a file (\<open>keeps\<close>).  The numbering
  collaborator returns when it is called with the number only.  The files that the numbering,
  the TOC and the merge collaborators hand back are regular files that can be read and are not
  the package itself (\<open>usable\<close>), the TOC and the merge collaborators do not raise, and the
  package can be written.
\<close>

definition keeps :: "fs \<Rightarrow> fs \<Rightarrow> bool" where
  "keeps d d' = (\<forall>x. d x \<noteq> None \<longrightarrow> d' x \<noteq> None)"

definition usable :: "env \<Rightarrow> fs \<Rightarrow> pystr \<Rightarrow> bool" where
  "usable E d x = (d x \<noteq> None \<and> \<not> is_dir E x \<and> readable E x \<and> x \<noteq> final_output_path E)"

definition others_succeed :: "env \<Rightarrow> config \<Rightarrow> pystr \<Rightarrow> pystr list \<Rightarrow> bool" where
  "others_succeed E cfg tmp_dir file_paths =
     ((\<forall>p\<in>set file_paths. \<forall>d num t su tx cb.
          keeps d (snd (add_exhibit_number_with_cover E d p num t su tx cb))
          \<and> (\<forall>nf. fst (add_exhibit_number_with_cover E d p num t su tx cb) = Inr nf
                 \<longrightarrow> usable E (snd (add_exhibit_number_with_cover E d p num t su tx cb)) nf)
          \<and> (\<exists>nf. fst (add_exhibit_number_with_cover E d p num None None None None) = Inr nf))
      \<and> (add_toc cfg \<longrightarrow>
           (\<forall>d el. \<exists>toc_file.
               fst (generate_table_of_contents E d el (visa_type cfg)
                      (path_join tmp_dir (S ''TOC.pdf''))) = Inr toc_file
               \<and> usable E (snd (generate_table_of_contents E d el (visa_type cfg)
                                  (path_join tmp_dir (S ''TOC.pdf'')))) toc_file
               \<and> keeps d (snd (generate_table_of_contents E d el (visa_type cfg)
                                 (path_join tmp_dir (S ''TOC.pdf''))))))
      \<and> (\<forall>d el p. keeps d (snd (generate_cover_letter E d el p)))
      \<and> (\<forall>d el p. keeps d (snd (generate_filing_instructions E d el p)))
      \<and> (merge_pdfs cfg \<longrightarrow>
           (\<forall>d ps. \<exists>merged_file.
               fst (pdf_merge_pdfs E d ps (path_join tmp_dir (S ''final_package.pdf''))) = Inr merged_file
               \<and> usable E (snd (pdf_merge_pdfs E d ps (path_join tmp_dir (S ''final_package.pdf''))))
                    merged_file))
      \<and> \<not> is_dir E (final_output_path E) \<and> writable E (final_output_path E))"

section \<open>Verification\<close>

subsection \<open>Numbering: \<^verbatim>\<open>to_roman\<close> computes the canonical numeral\<close>

lemma stage_pair:
  "stage (num, r) (v, s) = (num mod v, r @ concat (replicate (nat (num div v)) s))"
  by (simp add: stage_def)

lemma to_roman_for_eq:
  "to_roman_for k i (num, r) = (num - int k * val ! i, r @ concat (replicate k (syms ! i)))"
  by (induction k arbitrary: num r) (simp_all add: algebra_simps)

lemma foldl_stage_zero: "foldl stage (0, r) xs = (0, r)"
  by (induction xs) (simp_all add: stage_def)

lemma val_pos: "i < length val \<Longrightarrow> 0 < val ! i"
  by (simp add: val_def nth_Cons' )

lemma val_last: "val ! 12 = 1"
  by (simp add: val_def)

lemma length_val: "length val = 13" by (simp add: val_def)
lemma length_syms: "length syms = 13" by (simp add: syms_def)

lemma to_roman_while_foldl:
  "0 \<le> num \<Longrightarrow> i \<le> 13 \<Longrightarrow> (i = 13 \<longrightarrow> num = 0) \<Longrightarrow>
   to_roman_while i num r = Inr (snd (foldl stage (num, r) (drop i (zip val syms))))"
proof (induction i num r rule: to_roman_while.induct)
  case (1 i num r)
  show ?case
  proof (cases "num > 0")
    case False
    with "1.prems" have "num = 0" by simp
    then show ?thesis by (simp add: foldl_stage_zero to_roman_while.simps)
  next
    case True
    with "1.prems" have i: "i < 13" by (cases "i = 13") auto
    then have il: "i < length val" by (simp add: length_val)
    let ?k = "nat (num div val ! i)"
    let ?num' = "num mod val ! i"
    let ?r' = "r @ concat (replicate ?k (syms ! i))"
    have vp: "0 < val ! i" using il by (rule val_pos)
    have kk: "int ?k = num div val ! i" using True vp by (simp add: pos_imp_zdiv_nonneg_iff)
    have for_eq: "to_roman_for ?k i (num, r) = (?num', ?r')"
      unfolding to_roman_for_eq kk by (simp add: minus_div_mult_eq_mod)
    have n0: "0 \<le> ?num'" using vp by simp
    have last: "Suc i = 13 \<longrightarrow> ?num' = 0"
    proof
      assume "Suc i = 13"
      then have "i = 12" by simp
      then show "?num' = 0" by (simp add: val_last)
    qed
    have ih: "to_roman_while (i + 1) ?num' ?r' =
        Inr (snd (foldl stage (?num', ?r') (drop (i + 1) (zip val syms))))"
      using "1.IH"[OF True il for_eq[symmetric] n0] i last by simp
    have dr: "drop i (zip val syms) = (val ! i, syms ! i) # drop (Suc i) (zip val syms)"
      using i by (simp add: Cons_nth_drop_Suc[symmetric] length_val length_syms)
    have "to_roman_while i num r = to_roman_while (i + 1) ?num' ?r'"
      using True il for_eq by (subst to_roman_while.simps) simp
    also note ih
    finally show ?thesis by (simp add: dr stage_pair)
  qed
qed

lemma digit_cases:
  assumes "(d::nat) \<le> 9"
  shows "d = 0 \<or> d = 1 \<or> d = 2 \<or> d = 3 \<or> d = 4 \<or> d = 5 \<or> d = 6 \<or> d = 7 \<or> d = 8 \<or> d = 9"
  using assms by arith

lemma stage_times:
  assumes "0 < v" "int k * v \<le> m" "m < int k * v + v"
  shows "stage (m, r) (v, s) = (m - int k * v, r @ concat (replicate k s))"
proof -
  define q where "q = m - int k * v"
  have q: "0 \<le> q" "q < v" and m: "m = q + int k * v"
    using assms by (simp_all add: q_def)
  have "m div v = int k" "m mod v = q"
    unfolding m using q assms(1) by simp_all
  then show ?thesis by (simp add: stage_pair q_def)
qed

lemma stage0: "0 \<le> m \<Longrightarrow> m < v \<Longrightarrow> stage (m, r) (v, s) = (m, r)"
  using stage_times[of v 0 m r s] by simp

lemma stage1: "v \<le> m \<Longrightarrow> m < 2 * v \<Longrightarrow> 0 < v \<Longrightarrow> stage (m, r) (v, s) = (m - v, r @ s)"
  using stage_times[of v 1 m r s] by simp

lemma stage2: "2 * v \<le> m \<Longrightarrow> m < 3 * v \<Longrightarrow> 0 < v \<Longrightarrow> stage (m, r) (v, s) = (m - 2 * v, r @ s @ s)"
  using stage_times[of v 2 m r s] by (simp add: numeral_2_eq_2)

lemma stage3: "3 * v \<le> m \<Longrightarrow> m < 4 * v \<Longrightarrow> 0 < v \<Longrightarrow> stage (m, r) (v, s) = (m - 3 * v, r @ s @ s @ s)"
  using stage_times[of v 3 m r s] by (simp add: numeral_3_eq_3)

lemmas stage_rules = stage0 stage1 stage2 stage3


lemma block100_at:
  assumes "d \<le> 9" "100 * int d \<le> m" "m < 100 * int d + 100"
  shows "foldl stage (m, r) [(900, S ''CM''), (500, S ''D''), (400, S ''CD''), (100, S ''C'')]
         = (m - 100 * int d, r @ hundreds ! d)"
  using digit_cases[OF assms(1)] assms(2,3)
  by (elim disjE) (simp_all add: stage_rules hundreds_def S_def)


lemma block10_at:
  assumes "d \<le> 9" "10 * int d \<le> m" "m < 10 * int d + 10"
  shows "foldl stage (m, r) [(90, S ''XC''), (50, S ''L''), (40, S ''XL''), (10, S ''X'')]
         = (m - 10 * int d, r @ tens ! d)"
  using digit_cases[OF assms(1)] assms(2,3)
  by (elim disjE) (simp_all add: stage_rules tens_def S_def)

lemma block1_at:
  assumes "d \<le> 9" "int d \<le> m" "m < int d + 1"
  shows "foldl stage (m, r) [(9, S ''IX''), (5, S ''V''), (4, S ''IV''), (1, S ''I'')]
         = (m - int d, r @ ones ! d)"
  using digit_cases[OF assms(1)] assms(2,3)
  by (elim disjE) (simp_all add: stage_rules ones_def S_def)

lemma tbl_split:
  "zip val syms = (1000, S ''M'') #
     [(900, S ''CM''), (500, S ''D''), (400, S ''CD''), (100, S ''C'')] @
     [(90, S ''XC''), (50, S ''L''), (40, S ''XL''), (10, S ''X'')] @
     [(9, S ''IX''), (5, S ''V''), (4, S ''IV''), (1, S ''I'')]"
  by (simp add: val_def syms_def)


lemma decimal_split:
  fixes n :: nat
  shows "n = 1000 * (n div 1000) + 100 * (n div 100 mod 10) + 10 * (n div 10 mod 10) + n mod 10"
proof -
  define a where "a = n div 10"
  define b where "b = a div 10"
  have b: "n div 100 = b" unfolding b_def a_def by (simp add: div_mult2_eq[symmetric])
  have c: "n div 1000 = b div 10" unfolding b_def a_def by (simp add: div_mult2_eq[symmetric])
  have "n = 10 * a + n mod 10" unfolding a_def by simp
  moreover have "a = 10 * b + a mod 10" unfolding b_def by simp
  moreover have "b = 10 * (b div 10) + b mod 10" by simp
  ultimately have "n = 1000 * (b div 10) + 100 * (b mod 10) + 10 * (a mod 10) + n mod 10"
    by linarith
  then show ?thesis unfolding b c a_def .
qed

lemma foldl_stage_canonical:
  "snd (foldl stage (int n, []) (zip val syms)) = roman_canonical n"
proof -
  define k where "k = n div 1000"
  define h where "h = n div 100 mod 10"
  define t where "t = n div 10 mod 10"
  define o1 where "o1 = n mod 10"
  have n: "n = 1000 * k + 100 * h + 10 * t + o1"
    unfolding k_def h_def t_def o1_def by (rule decimal_split)
  have hb: "h \<le> 9" "t \<le> 9" "o1 \<le> 9"
    unfolding h_def t_def o1_def by simp_all
  define m1 where "m1 = int (100 * h + 10 * t + o1)"
  define m2 where "m2 = int (10 * t + o1)"
  have s0: "stage (int n, []) (1000, S ''M'') = (m1, concat (replicate k (S ''M'')))"
    using stage_times[of 1000 k "int n" "[]" "S ''M''"] hb n by (simp add: m1_def)
  have s1: "foldl stage (m1, r) [(900, S ''CM''), (500, S ''D''), (400, S ''CD''), (100, S ''C'')]
       = (m2, r @ hundreds ! h)" for r
    using block100_at[of h m1 r] hb by (simp add: m1_def m2_def)
  have s2: "foldl stage (m2, r) [(90, S ''XC''), (50, S ''L''), (40, S ''XL''), (10, S ''X'')]
       = (int o1, r @ tens ! t)" for r
    using block10_at[of t m2 r] hb by (simp add: m2_def)
  have s3: "foldl stage (int o1, r) [(9, S ''IX''), (5, S ''V''), (4, S ''IV''), (1, S ''I'')]
       = (0, r @ ones ! o1)" for r
    using block1_at[of o1 "int o1" r] hb by simp
  have "foldl stage (int n, []) (zip val syms)
      = (0, concat (replicate k (S ''M'')) @ hundreds ! h @ tens ! t @ ones ! o1)"
    by (subst tbl_split, subst foldl_Cons, subst s0, subst foldl_append, subst s1,
        subst foldl_append, subst s2, subst s3) simp
  then show ?thesis
    by (simp add: roman_canonical_def k_def h_def t_def o1_def)
qed

lemma to_roman_canonical: "to_roman (int n) = Inr (roman_canonical n)"
  unfolding to_roman_def
  using to_roman_while_foldl[of "int n" 0 "[]"] foldl_stage_canonical[of n] by simp


subsection \<open>Numbering: decimal strings\<close>

lemma dec_value_snoc: "dec_value (ds @ [c]) = 10 * dec_value ds + (c - 48)"
  by (simp add: dec_value_def)

lemma dec_value_dec_digits: "dec_value (dec_digits n) = n"
proof (induction n rule: dec_digits.induct)
  case (1 n)
  show ?case
  proof (cases "n < 10")
    case True
    then show ?thesis by (subst dec_digits.simps) (simp add: dec_value_def)
  next
    case False
    then show ?thesis
      using "1.IH" by (subst dec_digits.simps) (simp add: dec_value_snoc)
  qed
qed

lemma dec_digits_range: "list_all (\<lambda>c. 48 \<le> c \<and> c \<le> 57) (dec_digits n)"
proof (induction n rule: dec_digits.induct)
  case (1 n)
  show ?case
  proof (cases "n < 10")
    case True
    then show ?thesis by (subst dec_digits.simps) simp
  next
    case False
    have "n mod 10 \<le> 9" by simp
    then show ?thesis
      using False "1.IH" by (subst dec_digits.simps) simp
  qed
qed

lemma dec_digits_nonempty: "dec_digits n \<noteq> []"
  by (subst dec_digits.simps) simp

lemma dec_digits_leading: "0 < n \<Longrightarrow> hd (dec_digits n) \<noteq> 48"
proof (induction n rule: dec_digits.induct)
  case (1 n)
  show ?case
  proof (cases "n < 10")
    case True
    then show ?thesis using "1.prems" by (subst dec_digits.simps) simp
  next
    case False
    then have "0 < n div 10" by simp
    with False "1.IH" have "hd (dec_digits (n div 10)) \<noteq> 48" by simp
    then show ?thesis
      using False by (subst dec_digits.simps) (simp add: dec_digits_nonempty)
  qed
qed

text \<open>
  C2. With the style \<^verbatim>\<open>letters\<close> the claim asks for the bijective base-26 sequence at every
  position. The source prefixes a fixed \<^verbatim>\<open>A\<close> from position 26 on, so the sequence is right
  up to \<^verbatim>\<open>AZ\<close> (position 51) and wrong from position 52: the source yields \<^verbatim>\<open>A[\<close> where the
  sequence has \<^verbatim>\<open>BA\<close>. Position 26 is \<^verbatim>\<open>AA\<close> in both.
\<close>

theorem letters_position_52:
  "exhibit_num ''letters'' 52 = Inr (S ''A['') \<and> bijective26 52 = S ''BA''
   \<and> exhibit_num ''letters'' 26 = Inr (S ''AA'') \<and> bijective26 26 = S ''AA''"
  by code_simp

text \<open>
  C6. With the style \<^verbatim>\<open>numbers\<close> position \<open>i\<close> gets the decimal string of \<open>i + 1\<close>: digits
  only, no leading zero, denoting \<open>i + 1\<close>. With the style \<^verbatim>\<open>roman\<close> it gets the canonical
  subtractive numeral of \<open>i + 1\<close>, which the greedy loop of \<^verbatim>\<open>to_roman\<close> computes without
  raising; the six subtractive pairs appear at 4, 9, 40, 90, 400 and 900.
\<close>

theorem numbers_and_roman_numbering:
  "exhibit_num ''numbers'' i = Inr (py_str (int i + 1))
   \<and> list_all (\<lambda>c. 48 \<le> c \<and> c \<le> 57) (py_str (int i + 1))
   \<and> hd (py_str (int i + 1)) \<noteq> 48
   \<and> dec_value (py_str (int i + 1)) = i + 1
   \<and> exhibit_num ''roman'' i = Inr (roman_canonical (i + 1))
   \<and> exhibit_num ''roman'' i = to_roman (int i + 1)
   \<and> map roman_canonical [4, 9, 40, 90, 400, 900]
       = map S [''IV'', ''IX'', ''XL'', ''XC'', ''CD'', ''CM'']"
proof -
  have s: "py_str (int i + 1) = dec_digits (i + 1)"
    by (simp add: py_str_def nat_add_distrib)
  have r: "exhibit_num ''roman'' i = to_roman (int (i + 1))"
    by (simp add: exhibit_num_def add.commute)
  have t: "map roman_canonical [4, 9, 40, 90, 400, 900]
       = map S [''IV'', ''IX'', ''XL'', ''XC'', ''CD'', ''CM'']"
    by code_simp
  show ?thesis
    unfolding s
    using dec_value_dec_digits[of "i + 1"] dec_digits_range[of "i + 1"]
      dec_digits_leading[of "i + 1"] r to_roman_canonical[of "i + 1"] t
    by (simp add: exhibit_num_def py_str_def nat_add_distrib)
qed

subsection \<open>Pipeline steps\<close>

text \<open>Processor calls leave everything but the trace alone.\<close>

lemma update_step_simps [simp]:
  "events (update_step s n st m) = events s @ [UpdateStep n st m]"
  "disk (update_step s n st m) = disk s"
  "ss_exhibit_list (update_step s n st m) = ss_exhibit_list s"
  "ss_compression_stats (update_step s n st m) = ss_compression_stats s"
  "ss_exhibits_generated (update_step s n st m) = ss_exhibits_generated s"
  by (simp_all add: update_step_def)

lemma set_step_progress_simps [simp]:
  "events (set_step_progress s n p) = events s @ [SetStepProgress n p]"
  "disk (set_step_progress s n p) = disk s"
  "ss_exhibit_list (set_step_progress s n p) = ss_exhibit_list s"
  "ss_compression_stats (set_step_progress s n p) = ss_compression_stats s"
  "ss_exhibits_generated (set_step_progress s n p) = ss_exhibits_generated s"
  by (simp_all add: set_step_progress_def)

lemma complete_step_simps [simp]:
  "events (complete_step s n) = events s @ [CompleteStep n]"
  "disk (complete_step s n) = disk s"
  "ss_exhibit_list (complete_step s n) = ss_exhibit_list s"
  "ss_compression_stats (complete_step s n) = ss_compression_stats s"
  "ss_exhibits_generated (complete_step s n) = ss_exhibits_generated s"
  by (simp_all add: complete_step_def)

lemma completed_append [simp]: "completed (xs @ ys) = completed xs @ completed ys"
  by (induction xs rule: completed.induct) simp_all

subsection \<open>Steps toc and merge\<close>



text \<open>
  C4. With TOC generation enabled, line 2318 inserts the TOC file in front of
  \<^verbatim>\<open>numbered_files\<close>. With merging disabled, lines 2422-2428 copy \<^verbatim>\<open>numbered_files[0]\<close>, which
  their comment calls the first numbered exhibit, to the package: in the run of three files
  with TOC generation on and merging off, the package holds the bytes of the TOC, and not
  those of the numbered file of exhibit A.
\<close>

theorem merge_disabled_package_is_toc:
  "add_toc (cfg_default\<lparr>merge_pdfs := False\<rparr>) \<and> \<not> merge_pdfs (cfg_default\<lparr>merge_pdfs := False\<rparr>)
   \<and> snd (process_func env_ok (cfg_default\<lparr>merge_pdfs := False\<rparr>) three_files [] (fresh s_init))
       = Inr (result0\<lparr>total_pages := 6, original_size := 600, compressed_size := 300,
                      output_file := Some (S ''/tmp/exhibit_package_20260101_120000.pdf'')\<rparr>)
   \<and> map_option (map number)
        (ss_exhibit_list
           (fst (process_func env_ok (cfg_default\<lparr>merge_pdfs := False\<rparr>) three_files [] (fresh s_init))))
       = Some [S ''A'', S ''B'', S ''C'']
   \<and> disk (fst (process_func env_ok (cfg_default\<lparr>merge_pdfs := False\<rparr>) three_files [] (fresh s_init)))
        (S ''/tmp/run/a.pdf.numbered'') = Some (S ''AAAA'')
   \<and> disk (fst (process_func env_ok (cfg_default\<lparr>merge_pdfs := False\<rparr>) three_files [] (fresh s_init)))
        (S ''/tmp/run/TOC.pdf'') = Some (S ''TOC'')
   \<and> disk (fst (process_func env_ok (cfg_default\<lparr>merge_pdfs := False\<rparr>) three_files [] (fresh s_init)))
        (S ''/tmp/exhibit_package_20260101_120000.pdf'') = Some (S ''TOC'')"
  by code_simp

subsection \<open>Step finalize\<close>

text \<open>
  C5, as stated: the average reduction is \<open>1 - compressed / original\<close>. In the run of three
  files that compress from 200 to 100 bytes each the stored average is 50, not one half: the
  source multiplies by 100.
\<close>

theorem finalize_average_counterexample:
  "map_option avg_reduction
     (ss_compression_stats (fst (process_func env_ok cfg_default three_files [] s_init))) = Some 50
   \<and> map_option cs_original_size
       (ss_compression_stats (fst (process_func env_ok cfg_default three_files [] s_init))) = Some 600
   \<and> map_option cs_compressed_size
       (ss_compression_stats (fst (process_func env_ok cfg_default three_files [] s_init))) = Some 300
   \<and> (50 :: rat) \<noteq> 1 - 300 / 600"
  by code_simp

text \<open>
  C5, amended. The finalize step returns the result dictionary unchanged (total pages and the
  two size totals), stores the exhibit list in the session and sets
  \<^verbatim>\<open>exhibits_generated\<close>. When no compression succeeded the session's compression statistics
  are left as they were; otherwise they hold the two size totals and the average reduction
  as a percentage, \<open>(1 - compressed / original) * 100\<close> with every float operation rounded,
  when the original size is positive and 0 otherwise.
\<close>

theorem finalize_persists:
  "snd (step_finalize E cfg exhibit_list crs res s) = res
   \<and> ss_exhibit_list (fst (step_finalize E cfg exhibit_list crs res s)) = Some exhibit_list
   \<and> ss_exhibits_generated (fst (step_finalize E cfg exhibit_list crs res s))
   \<and> (case crs of
         [] \<Rightarrow>
           ss_compression_stats (fst (step_finalize E cfg exhibit_list crs res s))
             = ss_compression_stats s
       | first # _ \<Rightarrow>
           map_option cs_original_size
               (ss_compression_stats (fst (step_finalize E cfg exhibit_list crs res s)))
             = Some (original_size res)
           \<and> map_option cs_compressed_size
               (ss_compression_stats (fst (step_finalize E cfg exhibit_list crs res s)))
             = Some (compressed_size res)
           \<and> map_option avg_reduction
               (ss_compression_stats (fst (step_finalize E cfg exhibit_list crs res s)))
             = Some (if original_size res > 0
                     then fl E (fl E (1 - fl E (of_int (compressed_size res)
                                                  / of_int (original_size res))) * 100)
                     else 0))"
  by (cases crs) (simp_all add: step_finalize_def avg_reduction_of_def Let_def)

section \<open>The calls on the processor\<close>

subsection \<open>Progress percentages\<close>

lemma percent_pct: "0 < n \<Longrightarrow> percent E (int i + 1) (int n) = Inr (pct E (Suc i) n)"
  by (simp add: percent_def pct_def add.commute)

lemma percent_max: "percent E (int i + 1) (max (int n) 1) = Inr (pct E (Suc i) (max n 1))"
proof -
  have "max (int n) 1 = int (max n 1)" by simp
  then show ?thesis using percent_pct[of "max n 1" E i] by simp
qed

lemma pct_mono:
  assumes "rounding (fl E)" "j \<le> k"
  shows "pct E j n \<le> pct E k n"
proof -
  have m: "mono (fl E)" using assms(1) by (simp add: rounding_def)
  have "(of_nat j :: rat) / of_nat n \<le> of_nat k / of_nat n"
    using assms(2) by (simp add: divide_right_mono)
  then have "fl E (of_nat j / of_nat n) * 100 \<le> fl E (of_nat k / of_nat n) * 100"
    using m by (simp add: monoD)
  then show ?thesis unfolding pct_def using m by (rule monoD[rotated])
qed

lemma pct_range:
  assumes "rounding (fl E)" "k \<le> n"
  shows "in_range (pct E k n)"
proof -
  have m: "mono (fl E)" and f0: "fl E 0 = 0" and f1: "fl E 1 = 1" and f100: "fl E 100 = 100"
    using assms(1) by (simp_all add: rounding_def)
  have q0: "(0::rat) \<le> of_nat k / of_nat n" by simp
  have q1: "(of_nat k :: rat) / of_nat n \<le> 1"
    using assms(2) by (cases "n = 0") (simp_all add: divide_le_eq_1)
  have "fl E 0 \<le> fl E (of_nat k / of_nat n)" using m q0 by (rule monoD)
  then have a0: "0 \<le> fl E (of_nat k / of_nat n) * 100" using f0 by simp
  have "fl E (of_nat k / of_nat n) \<le> fl E 1" using m q1 by (rule monoD)
  then have a1: "fl E (of_nat k / of_nat n) * 100 \<le> 100" using f1 by simp
  have "fl E 0 \<le> fl E (fl E (of_nat k / of_nat n) * 100)" using m a0 by (rule monoD)
  moreover have "fl E (fl E (of_nat k / of_nat n) * 100) \<le> fl E 100" using m a1 by (rule monoD)
  ultimately show ?thesis using f0 f100 by (simp add: in_range_def pct_def)
qed

lemma sorted_map_upt:
  assumes "\<And>j k. j \<le> k \<Longrightarrow> f j \<le> (f k :: rat)"
  shows "sorted (map f [a..<b])"
proof -
  have "sorted_wrt (\<lambda>x y. f x \<le> f y) [a..<b]"
    by (rule sorted_wrt_mono_rel[of _ "(\<le>)"]) (simp_all add: assms)
  then show ?thesis by (simp add: sorted_map)
qed

lemma progress_segment_ok:
  assumes "rounding (fl E)" "b \<le> Suc n"
  shows "sorted (map (\<lambda>k. pct E k n) [a..<b]) \<and> list_all in_range (map (\<lambda>k. pct E k n) [a..<b])"
proof
  show "sorted (map (\<lambda>k. pct E k n) [a..<b])"
    by (rule sorted_map_upt) (rule pct_mono[OF assms(1)])
  show "list_all in_range (map (\<lambda>k. pct E k n) [a..<b])"
    using assms by (auto simp: list_all_iff intro!: pct_range)
qed

subsection \<open>What the loops record\<close>

lemma extract_files_events:
  "extract_files E tmp_dir n i files fps s = (s', r) \<Longrightarrow>
   \<exists>m\<le>length files.
     events s' = events s @ map (\<lambda>k. SetStepProgress ''extract'' (pct E k (max n 1))) [Suc i..<Suc i + m]"
proof (induction files arbitrary: i fps s)
  case Nil
  then show ?case by auto
next
  case (Cons f rest)
  show ?case
  proof (cases "write_file E (disk s) (path_join tmp_dir (name f)) (read f)")
    case (Inl e)
    with Cons.prems have "s' = s" by (simp add: Let_def)
    then show ?thesis by (intro exI[of _ 0]) simp
  next
    case (Inr d)
    let ?s1 = "set_step_progress (s\<lparr>disk := d\<rparr>) ''extract'' (pct E (Suc i) (max n 1))"
    from Cons.prems Inr
    have "extract_files E tmp_dir n (Suc i) rest (fps @ [path_join tmp_dir (name f)]) ?s1 = (s', r)"
      by (simp add: Let_def percent_max)
    from Cons.IH[OF this] obtain m where m: "m \<le> length rest"
      and ev: "events s' = events ?s1 @ map (\<lambda>k. SetStepProgress ''extract'' (pct E k (max n 1)))
                 [Suc (Suc i)..<Suc (Suc i) + m]"
      by blast
    have "[Suc i..<Suc i + Suc m] = Suc i # [Suc (Suc i)..<Suc (Suc i) + m]"
      by (simp add: upt_conv_Cons)
    with ev have "events s' = events s @ map (\<lambda>k. SetStepProgress ''extract'' (pct E k (max n 1)))
                 [Suc i..<Suc i + Suc m]"
      by simp
    with m show ?thesis by (intro exI[of _ "Suc m"]) simp
  qed
qed

lemma extract_zips_events:
  "extract_zips E tmp_dir zs fps s = (s', r) \<Longrightarrow>
   \<exists>msgs. events s' = events s @ map (\<lambda>m. UpdateStep ''extract'' ''error'' (Some m)) msgs"
proof (induction zs arbitrary: fps s)
  case Nil
  then show ?case by (intro exI[of _ "[]"]) simp
next
  case (Cons z rest)
  have step: "\<exists>msgs. events s' = events s @ map (\<lambda>m. UpdateStep ''extract'' ''error'' (Some m)) msgs"
    if "extract_zips E tmp_dir rest fps (update_step s ''extract'' ''error'' (Some msg)) = (s', r)"
    for msg
  proof -
    from Cons.IH[OF that] obtain msgs where
      "events s' = events (update_step s ''extract'' ''error'' (Some msg))
         @ map (\<lambda>m. UpdateStep ''extract'' ''error'' (Some m)) msgs" by blast
    then show ?thesis by (intro exI[of _ "msg # msgs"]) simp
  qed
  show ?case
  proof (cases z)
    case (ZOther x)
    with Cons.prems show ?thesis by (auto intro: step)
  next
    case (ZStr p)
    show ?thesis
    proof (cases "isabs p")
      case False
      with Cons.prems ZStr show ?thesis by (auto intro: step)
    next
      case True
      show ?thesis
      proof (cases "exists E (disk s) p")
        case False
        with Cons.prems ZStr True show ?thesis by (auto intro: step)
      next
        case ex: True
        show ?thesis
        proof (cases "copy E (disk s) p (path_join tmp_dir (basename p))")
          case (Inl e)
          with Cons.prems ZStr True ex have "s' = s" by (simp add: Let_def)
          then show ?thesis by (intro exI[of _ "[]"]) simp
        next
          case (Inr d)
          with Cons.prems ZStr True ex
          have "extract_zips E tmp_dir rest (fps @ [path_join tmp_dir (basename p)]) (s\<lparr>disk := d\<rparr>) = (s', r)"
            by (simp add: Let_def)
          from Cons.IH[OF this] show ?thesis by simp
        qed
      qed
    qed
  qed
qed

lemma compress_loop_events:
  "compress_loop E n i fps crs res s = (s', r) \<Longrightarrow> n = i + length fps \<Longrightarrow>
   \<exists>m\<le>length fps.
     events s' = events s @ map (\<lambda>k. SetStepProgress ''compress'' (pct E k n)) [Suc i..<Suc i + m]"
proof (induction fps arbitrary: i crs res s)
  case Nil
  then show ?case by auto
next
  case (Cons file_path rest)
  have n: "0 < n" using Cons.prems(2) by simp
  obtain c d where c: "compress E (disk s) file_path = (c, d)"
    by (cases "compress E (disk s) file_path") auto
  show ?case
  proof (cases c)
    case (Inl e)
    with Cons.prems c have "events s' = events s" by auto
    then show ?thesis by (intro exI[of _ 0]) simp
  next
    case (Inr comp_result)
    let ?s1 = "set_step_progress (s\<lparr>disk := d\<rparr>) ''compress'' (pct E (Suc i) n)"
    from Cons.prems(1) c Inr n obtain crs' res' where
      "compress_loop E n (Suc i) rest crs' res' ?s1 = (s', r)"
      by (simp add: Let_def percent_pct)
    from Cons.IH[OF this] Cons.prems(2) obtain m where m: "m \<le> length rest"
      and ev: "events s' = events ?s1 @ map (\<lambda>k. SetStepProgress ''compress'' (pct E k n))
                 [Suc (Suc i)..<Suc (Suc i) + m]"
      by auto
    have "[Suc i..<Suc i + Suc m] = Suc i # [Suc (Suc i)..<Suc (Suc i) + m]"
      by (simp add: upt_conv_Cons)
    with ev have "events s' = events s @ map (\<lambda>k. SetStepProgress ''compress'' (pct E k n))
                 [Suc i..<Suc i + Suc m]"
      by simp
    with m show ?thesis by (intro exI[of _ "Suc m"]) simp
  qed
qed

lemma number_loop_events:
  "number_loop E cfg n crs i fps acc s = (s', r) \<Longrightarrow> n = i + length fps \<Longrightarrow>
   \<exists>m\<le>length fps.
     events s' = events s @ map (\<lambda>k. SetStepProgress ''number'' (pct E k n)) [Suc i..<Suc i + m]"
proof (induction fps arbitrary: i acc s)
  case Nil
  then show ?case by (cases acc) auto
next
  case (Cons file_path rest)
  have n: "0 < n" using Cons.prems(2) by simp
  obtain nfs el res cb where acc: "acc = (nfs, el, res, cb)" by (cases acc) auto
  show ?case
  proof (cases "exhibit_num (numbering_style cfg) i")
    case (Inl e)
    with Cons.prems acc have "s' = s" by simp
    then show ?thesis by (intro exI[of _ 0]) simp
  next
    case (Inr num)
    obtain info cb' where ai: "ai_analysis E cfg (disk s) file_path
        (initial_info E (disk s) file_path num) cb = (info, cb')"
      by (cases "ai_analysis E cfg (disk s) file_path (initial_info E (disk s) file_path num) cb") auto
    obtain nf d where nf: "numbered_file_of E cfg (disk s) file_path num info cb' = (nf, d)"
      by (cases "numbered_file_of E cfg (disk s) file_path num info cb'") auto
    show ?thesis
    proof (cases nf)
      case (Inl e)
      with Cons.prems acc Inr ai nf have "events s' = events s" by auto
      then show ?thesis by (intro exI[of _ 0]) simp
    next
      case nfr: (Inr numbered_file)
      let ?s1 = "set_step_progress (s\<lparr>disk := d\<rparr>) ''number'' (pct E (Suc i) n)"
      from Cons.prems(1) acc Inr ai nf nfr n obtain acc' where
        "number_loop E cfg n crs (Suc i) rest acc' ?s1 = (s', r)"
        by (simp add: Let_def percent_pct)
      from Cons.IH[OF this] Cons.prems(2) obtain m where m: "m \<le> length rest"
        and ev: "events s' = events ?s1 @ map (\<lambda>k. SetStepProgress ''number'' (pct E k n))
                   [Suc (Suc i)..<Suc (Suc i) + m]"
        by auto
      have "[Suc i..<Suc i + Suc m] = Suc i # [Suc (Suc i)..<Suc (Suc i) + m]"
        by (simp add: upt_conv_Cons)
      with ev have "events s' = events s @ map (\<lambda>k. SetStepProgress ''number'' (pct E k n))
                   [Suc i..<Suc i + Suc m]"
        by simp
      with m show ?thesis by (intro exI[of _ "Suc m"]) simp
    qed
  qed
qed

subsection \<open>Segments of the trace\<close>

lemma complete_status_progress [simp]:
  "complete_status st (map (\<lambda>k. SetStepProgress n (f k)) ks @ ys) = complete_status st ys"
  by (induction ks) simp_all

lemma complete_status_errors [simp]:
  "complete_status st (map (\<lambda>m. UpdateStep n ''error'' (Some m)) ms @ ys)
     = complete_status (if ms = [] then st else Some ''error'') ys"
  by (induction ms arbitrary: st) simp_all

lemma progress_values_progress [simp]:
  "progress_values n (map (\<lambda>k. SetStepProgress n (f k)) ks @ ys) = map f ks @ progress_values n ys"
  by (induction ks) simp_all

lemma progress_values_errors [simp]:
  "progress_values n (map (\<lambda>m. UpdateStep n' st (g m)) ms @ ys) = progress_values n ys"
  by (induction ms) simp_all

lemma segment_running:
  assumes "events s' = events s @ UpdateStep N ''running'' None
             # map (\<lambda>k. SetStepProgress N (pct E k n)) [a..<b]
             @ map (\<lambda>m. UpdateStep N ''error'' (Some m)) ms @ fin"
      and "fin = [] \<or> fin = [CompleteStep N]"
      and "b \<le> Suc n"
      and "allowed E cfg N (Some ''running'')"
      and "ms \<noteq> [] \<longrightarrow> allowed E cfg N (Some ''error'')"
  shows "segment E cfg N s s'"
proof -
  let ?X = "UpdateStep N ''running'' None
             # map (\<lambda>k. SetStepProgress N (pct E k n)) [a..<b]
             @ map (\<lambda>m. UpdateStep N ''error'' (Some m)) ms @ fin"
  have 1: "\<forall>e\<in>set ?X. step_of e = N" using assms(2) by auto
  have 2: "list_all (allowed E cfg N) (complete_status None ?X)"
    using assms(2,4,5) by auto
  have 3: "progress_values N ?X = map (\<lambda>k. pct E k n) [a..<b]"
    using assms(2) by auto
  have "seg_local E cfg N ?X"
    unfolding seg_local_def 3 using 2 progress_segment_ok[OF _ assms(3)] by blast
  with 1 assms(1) show ?thesis unfolding segment_def by blast
qed

lemma segment_plain:
  assumes "events s' = events s @ UpdateStep N ''running'' None # fin"
      and "fin = [] \<or> fin = [CompleteStep N]"
      and "allowed E cfg N (Some ''running'')"
  shows "segment E cfg N s s'"
  using segment_running[of s' s N E 0 0 0 "[]" fin cfg] assms by simp

lemma segment_skipped:
  assumes "events s' = events s @ [CompleteStep N]" and "allowed E cfg N None"
  shows "segment E cfg N s s'"
  unfolding segment_def seg_local_def using assms by (intro exI[of _ "[CompleteStep N]"]) simp

lemma segment_extract:
  "segment E cfg ''extract'' s (fst (step_extract E tmp_dir files zip_files s))"
proof -
  let ?s0 = "update_step s ''extract'' ''running'' None"
  obtain s1 r1 where e1: "extract_files E tmp_dir (length files) 0 files [] ?s0 = (s1, r1)"
    by (cases "extract_files E tmp_dir (length files) 0 files [] ?s0") auto
  from extract_files_events[OF e1] obtain m where m: "m \<le> length files"
    and ev1: "events s1 = events ?s0
        @ map (\<lambda>k. SetStepProgress ''extract'' (pct E k (max (length files) 1))) [Suc 0..<Suc 0 + m]"
    by blast
  have al: "allowed E cfg ''extract'' (Some ''running'')" "allowed E cfg ''extract'' (Some ''error'')"
    by (simp_all add: allowed_def)
  have b: "Suc 0 + m \<le> Suc (max (length files) 1)" using m by simp
  show ?thesis
  proof (cases r1)
    case (Inl e)
    then have "fst (step_extract E tmp_dir files zip_files s) = s1"
      by (simp add: step_extract_def e1)
    then show ?thesis
      using segment_running[of s1 s "''extract''" E "max (length files) 1" "Suc 0" "Suc 0 + m" "[]" "[]" cfg]
        ev1 al b by simp
  next
    case (Inr fps)
    obtain s2 r2 where e2: "extract_zips E tmp_dir zip_files fps s1 = (s2, r2)"
      by (cases "extract_zips E tmp_dir zip_files fps s1") auto
    from extract_zips_events[OF e2] obtain msgs where
      ev2: "events s2 = events s1 @ map (\<lambda>m. UpdateStep ''extract'' ''error'' (Some m)) msgs"
      by blast
    show ?thesis
    proof (cases r2)
      case (Inl e)
      then have "fst (step_extract E tmp_dir files zip_files s) = s2"
        by (simp add: step_extract_def e1 Inr e2)
      then show ?thesis
        using segment_running[of s2 s "''extract''" E "max (length files) 1" "Suc 0" "Suc 0 + m"
                msgs "[]" cfg]
          ev1 ev2 al b by simp
    next
      case r: (Inr fps')
      then have "fst (step_extract E tmp_dir files zip_files s) = complete_step s2 ''extract''"
        by (simp add: step_extract_def e1 Inr e2)
      then show ?thesis
        using segment_running[of "complete_step s2 ''extract''" s "''extract''" E
                "max (length files) 1" "Suc 0" "Suc 0 + m" msgs "[CompleteStep ''extract'']" cfg]
          ev1 ev2 al b by simp
    qed
  qed
qed

lemma segment_compress:
  "segment E cfg ''compress'' s (fst (step_compress E cfg fps res s))"
proof (cases "enable_compression cfg \<and> has_compressor E")
  case False
  then have "fst (step_compress E cfg fps res s) = complete_step s ''compress''"
    by (auto simp: step_compress_def)
  then show ?thesis
    using False by (intro segment_skipped) (auto simp: allowed_def)
next
  case True
  let ?s0 = "update_step s ''compress'' ''running'' None"
  obtain s1 r1 where e1: "compress_loop E (length fps) 0 fps [] res ?s0 = (s1, r1)"
    by (cases "compress_loop E (length fps) 0 fps [] res ?s0") auto
  from compress_loop_events[OF e1] obtain m where m: "m \<le> length fps"
    and ev1: "events s1 = events ?s0
        @ map (\<lambda>k. SetStepProgress ''compress'' (pct E k (length fps))) [Suc 0..<Suc 0 + m]"
    by auto
  have al: "allowed E cfg ''compress'' (Some ''running'')"
    using True by (simp add: allowed_def)
  have b: "Suc 0 + m \<le> Suc (length fps)" using m by simp
  show ?thesis
  proof (cases r1)
    case (Inl e)
    then have "fst (step_compress E cfg fps res s) = s1"
      using True by (simp add: step_compress_def e1)
    then show ?thesis
      using segment_running[of s1 s "''compress''" E "length fps" "Suc 0" "Suc 0 + m" "[]" "[]" cfg]
        ev1 al b by simp
  next
    case (Inr out)
    then have "fst (step_compress E cfg fps res s) = complete_step s1 ''compress''"
      using True by (simp add: step_compress_def e1)
    then show ?thesis
      using segment_running[of "complete_step s1 ''compress''" s "''compress''" E "length fps"
              "Suc 0" "Suc 0 + m" "[]" "[CompleteStep ''compress'']" cfg]
        ev1 al b by simp
  qed
qed

lemma segment_number:
  "segment E cfg ''number'' s (fst (step_number E cfg fps crs res s))"
proof -
  let ?s0 = "update_step s ''number'' ''running'' None"
  obtain s1 r1 where e1: "number_loop E cfg (length fps) crs 0 fps ([], [], res, None) ?s0 = (s1, r1)"
    by (cases "number_loop E cfg (length fps) crs 0 fps ([], [], res, None) ?s0") auto
  from number_loop_events[OF e1] obtain m where m: "m \<le> length fps"
    and ev1: "events s1 = events ?s0
        @ map (\<lambda>k. SetStepProgress ''number'' (pct E k (length fps))) [Suc 0..<Suc 0 + m]"
    by auto
  have al: "allowed E cfg ''number'' (Some ''running'')"
    by (simp add: allowed_def)
  have b: "Suc 0 + m \<le> Suc (length fps)" using m by simp
  show ?thesis
  proof (cases r1)
    case (Inl e)
    then have "fst (step_number E cfg fps crs res s) = s1"
      by (simp add: step_number_def e1)
    then show ?thesis
      using segment_running[of s1 s "''number''" E "length fps" "Suc 0" "Suc 0 + m" "[]" "[]" cfg]
        ev1 al b by simp
  next
    case (Inr out)
    then have "fst (step_number E cfg fps crs res s) = complete_step s1 ''number''"
      by (simp add: step_number_def e1)
    then show ?thesis
      using segment_running[of "complete_step s1 ''number''" s "''number''" E "length fps"
              "Suc 0" "Suc 0 + m" "[]" "[CompleteStep ''number'']" cfg]
        ev1 al b by simp
  qed
qed

lemma segment_toc:
  "segment E cfg ''toc'' s (fst (step_toc E cfg tmp_dir el nfs s))"
proof (cases "add_toc cfg")
  case False
  then have "fst (step_toc E cfg tmp_dir el nfs s) = complete_step s ''toc''"
    by (simp add: step_toc_def)
  then show ?thesis using False by (intro segment_skipped) (auto simp: allowed_def)
next
  case True
  have al: "allowed E cfg ''toc'' (Some ''running'')" using True by (simp add: allowed_def)
  obtain r d where g: "generate_table_of_contents E (disk s) el (visa_type cfg)
                  (path_join tmp_dir (S ''TOC.pdf'')) = (r, d)"
    by (cases "generate_table_of_contents E (disk s) el (visa_type cfg)
                  (path_join tmp_dir (S ''TOC.pdf''))") auto
  show ?thesis
  proof (cases r)
    case (Inl e)
    then show ?thesis
      using True g al by (intro segment_plain[where fin = "[]"]) (simp_all add: step_toc_def Let_def)
  next
    case (Inr toc_file)
    then show ?thesis
      using True g al
      by (intro segment_plain[where fin = "[CompleteStep ''toc'']"]) (simp_all add: step_toc_def Let_def)
  qed
qed

lemma segment_cover:
  "segment E cfg ''cover'' s (fst (step_cover E cfg tmp_dir el res s))"
proof (cases "add_cover_letter cfg")
  case False
  then have "fst (step_cover E cfg tmp_dir el res s) = complete_step s ''cover''"
    by (simp add: step_cover_def)
  then show ?thesis using False by (intro segment_skipped) (auto simp: allowed_def)
next
  case True
  have al: "allowed E cfg ''cover'' (Some ''running'')" using True by (simp add: allowed_def)
  obtain r d where g: "generate_cover_letter E (disk s) el
                  (path_join tmp_dir (S ''Cover_Letter.docx'')) = (r, d)"
    by (cases "generate_cover_letter E (disk s) el (path_join tmp_dir (S ''Cover_Letter.docx''))") auto
  show ?thesis
    using True g al
    by (intro segment_plain[where fin = "[CompleteStep ''cover'']"])
       (cases r; simp add: step_cover_def Let_def)+
qed

lemma segment_filing_instructions:
  "segment E cfg ''filing_instructions'' s
     (fst (step_filing_instructions E cfg tmp_dir el res s))"
proof -
  have al: "allowed E cfg ''filing_instructions'' (Some ''running'')" by (simp add: allowed_def)
  obtain r d where g: "generate_filing_instructions E (disk s) el
                  (path_join tmp_dir (S ''Filing_Instructions.docx'')) = (r, d)"
    by (cases "generate_filing_instructions E (disk s) el
                 (path_join tmp_dir (S ''Filing_Instructions.docx''))") auto
  show ?thesis
    using g al
    by (intro segment_plain[where fin = "[CompleteStep ''filing_instructions'']"])
       (cases r; cases "add_filing_instructions cfg"; simp add: step_filing_instructions_def Let_def)+
qed

lemma segment_merge:
  "segment E cfg ''merge'' s (fst (step_merge E cfg tmp_dir nfs res s))"
proof -
  have al: "allowed E cfg ''merge'' (Some ''running'')" by (simp add: allowed_def)
  have "events (fst (step_merge E cfg tmp_dir nfs res s)) = events s @ [UpdateStep ''merge'' ''running'' None]
        \<or> events (fst (step_merge E cfg tmp_dir nfs res s))
            = events s @ [UpdateStep ''merge'' ''running'' None, CompleteStep ''merge'']"
    by (auto simp: step_merge_def Let_def split: list.splits prod.splits sum.splits)
  then show ?thesis
  proof
    assume "events (fst (step_merge E cfg tmp_dir nfs res s)) = events s @ [UpdateStep ''merge'' ''running'' None]"
    then show ?thesis using al by (intro segment_plain[where fin = "[]"]) simp_all
  next
    assume "events (fst (step_merge E cfg tmp_dir nfs res s))
            = events s @ [UpdateStep ''merge'' ''running'' None, CompleteStep ''merge'']"
    then show ?thesis using al by (intro segment_plain[where fin = "[CompleteStep ''merge'']"]) simp_all
  qed
qed

lemma segment_finalize:
  "segment E cfg ''finalize'' s (fst (step_finalize E cfg el crs res s))"
proof -
  have al: "allowed E cfg ''finalize'' (Some ''running'')" by (simp add: allowed_def)
  show ?thesis
    using al
    by (intro segment_plain[where fin = "[CompleteStep ''finalize'']"])
       (cases crs; simp add: step_finalize_def Let_def)+
qed

subsection \<open>The trace of a run is made of one segment per step\<close>

lemma about_append [simp]: "about n (xs @ ys) = about n xs @ about n ys"
  by (simp add: about_def)

lemma about_none: "\<forall>e\<in>set xs. step_of e \<noteq> n \<Longrightarrow> about n xs = []"
  by (simp add: about_def)

lemma about_all: "\<forall>e\<in>set xs. step_of e = n \<Longrightarrow> about n xs = xs"
  by (simp add: about_def)

lemma seg_local_Nil [simp]: "seg_local E cfg n []"
  by (simp add: seg_local_def)

lemma inv_Nil: "inv (seg_local E cfg) {} []"
  by (simp add: inv_def about_def)

lemma inv_mono: "inv L K tr \<Longrightarrow> K \<subseteq> K' \<Longrightarrow> inv L K' tr"
  by (auto simp: inv_def)

lemma inv_segment:
  assumes "inv (seg_local E cfg) K (events s)" "N \<notin> K" "segment E cfg N s s'"
  shows "inv (seg_local E cfg) (insert N K) (events s')"
proof -
  from assms(3) obtain X where ev: "events s' = events s @ X"
    and only: "\<forall>e\<in>set X. step_of e = N" and loc: "seg_local E cfg N X"
    unfolding segment_def by blast
  have old: "\<forall>e\<in>set (events s). step_of e \<in> K" and L: "\<And>n. seg_local E cfg n (about n (events s))"
    using assms(1) by (auto simp: inv_def)
  have "seg_local E cfg n (about n (events s'))" for n
  proof (cases "n = N")
    case True
    have "about N (events s) = []" using old assms(2) by (intro about_none) auto
    then show ?thesis using True ev loc about_all[OF only] by simp
  next
    case False
    have "about n X = []" using only False by (intro about_none) auto
    then show ?thesis using ev L[of n] by simp
  qed
  moreover have "\<forall>e\<in>set (events s'). step_of e \<in> insert N K"
    using ev old only by auto
  ultimately show ?thesis by (simp add: inv_def)
qed

lemmas K_defs = K1_def K2_def K3_def K4_def K5_def K6_def K7_def K8_def

lemma process_body_inv:
  assumes "events s = []"
  shows "inv (seg_local E cfg) K8 (events (fst (process_body E cfg files zip_files tmp_dir s)))"
proof -
  let ?I = "inv (seg_local E cfg)"
  note pb = process_body_def
  have i0: "?I {} (events s)" using assms by (simp add: inv_Nil)
  have up: "?I K8 tr" if "?I K tr" "K \<subseteq> K8" for K tr
    using that by (rule inv_mono)
  obtain s1 r1 where e1: "step_extract E tmp_dir files zip_files s = (s1, r1)"
    by (cases "step_extract E tmp_dir files zip_files s") auto
  have i1: "?I K1 (events s1)"
    using inv_segment[OF i0 _ segment_extract[of E cfg s tmp_dir files zip_files]] e1
    by (simp add: K1_def)
  show ?thesis
  proof (cases r1)
    case (Inl e)
    then show ?thesis using up[OF i1] by (simp add: pb e1 K_defs)
  next
    case r1: (Inr fps)
    obtain s2 r2 where e2: "step_compress E cfg fps result0 s1 = (s2, r2)"
      by (cases "step_compress E cfg fps result0 s1") auto
    have i2: "?I K2 (events s2)"
      using inv_segment[OF i1 _ segment_compress[of E cfg s1 fps result0]] e2
      by (simp add: K_defs)
    show ?thesis
    proof (cases r2)
      case (Inl e)
      then show ?thesis using up[OF i2] by (simp add: pb e1 r1 e2 K_defs)
    next
      case (Inr out2)
      obtain crs res2 where r2: "r2 = Inr (crs, res2)" using Inr by (cases out2) auto
      obtain s3 r3 where e3: "step_number E cfg fps crs res2 s2 = (s3, r3)"
        by (cases "step_number E cfg fps crs res2 s2") auto
      have i3: "?I K3 (events s3)"
        using inv_segment[OF i2 _ segment_number[of E cfg s2 fps crs res2]] e3
        by (simp add: K_defs)
      show ?thesis
      proof (cases r3)
        case (Inl e)
        then show ?thesis using up[OF i3] by (simp add: pb e1 r1 e2 r2 e3 K_defs)
      next
        case (Inr out3)
        obtain nfs el res3 where r3: "r3 = Inr (nfs, el, res3)" using Inr by (cases out3) auto
        obtain s4 r4 where e4: "step_toc E cfg tmp_dir el nfs s3 = (s4, r4)"
          by (cases "step_toc E cfg tmp_dir el nfs s3") auto
        have i4: "?I K4 (events s4)"
          using inv_segment[OF i3 _ segment_toc[of E cfg s3 tmp_dir el nfs]] e4
          by (simp add: K_defs)
        show ?thesis
        proof (cases r4)
          case (Inl e)
          then show ?thesis using up[OF i4] by (simp add: pb e1 r1 e2 r2 e3 r3 e4 K_defs)
        next
          case r4: (Inr nfs')
          obtain s5 res5 where e5: "step_cover E cfg tmp_dir el res3 s4 = (s5, res5)"
            by (cases "step_cover E cfg tmp_dir el res3 s4") auto
          have i5: "?I K5 (events s5)"
            using inv_segment[OF i4 _ segment_cover[of E cfg s4 tmp_dir el res3]] e5
            by (simp add: K_defs)
          obtain s6 res6 where e6: "step_filing_instructions E cfg tmp_dir el res5 s5 = (s6, res6)"
            by (cases "step_filing_instructions E cfg tmp_dir el res5 s5") auto
          have i6: "?I K6 (events s6)"
            using inv_segment[OF i5 _ segment_filing_instructions[of E cfg s5 tmp_dir el res5]] e6
            by (simp add: K_defs)
          obtain s7 r7 where e7: "step_merge E cfg tmp_dir nfs' res6 s6 = (s7, r7)"
            by (cases "step_merge E cfg tmp_dir nfs' res6 s6") auto
          have i7: "?I K7 (events s7)"
            using inv_segment[OF i6 _ segment_merge[of E cfg s6 tmp_dir nfs' res6]] e7
            by (simp add: K_defs)
          show ?thesis
          proof (cases r7)
            case (Inl e)
            then show ?thesis
              using up[OF i7] by (simp add: pb e1 r1 e2 r2 e3 r3 e4 r4 e5 e6 e7 K_defs)
          next
            case r7: (Inr res7)
            obtain s8 res8 where e8: "step_finalize E cfg el crs res7 s7 = (s8, res8)"
              by (cases "step_finalize E cfg el crs res7 s7") auto
            have i8: "?I K8 (events s8)"
              using inv_segment[OF i7 _ segment_finalize[of E cfg s7 el crs res7]] e8
              by (simp add: K_defs)
            then show ?thesis
              by (simp add: pb e1 r1 e2 r2 e3 r3 e4 r4 e5 e6 e7 r7 e8)
          qed
        qed
      qed
    qed
  qed
qed

lemma process_func_inv:
  "inv (seg_local E cfg) K8 (events (fst (process_func E cfg files zip_files (fresh s))))"
proof (cases "mkdtemp E")
  case (Inl e)
  then show ?thesis
    using inv_mono[OF inv_Nil, of K8 E cfg] by (simp add: process_func_def fresh_def)
next
  case (Inr tmp_dir)
  have f: "events (fresh s) = []" by (simp add: fresh_def)
  obtain s' r where pb: "process_body E cfg files zip_files tmp_dir (fresh s) = (s', r)"
    by (cases "process_body E cfg files zip_files tmp_dir (fresh s)") auto
  from process_body_inv[OF f, of E cfg files zip_files tmp_dir] pb
  have "inv (seg_local E cfg) K8 (events s')" by simp
  then show ?thesis using Inr pb by (cases r) (simp_all add: process_func_def)
qed

lemma complete_calls_about:
  "map snd (filter (\<lambda>c. fst c = n) (complete_calls st tr)) = complete_status (st n) (about n tr)"
proof (induction tr arbitrary: st)
  case Nil
  then show ?case by (simp add: about_def)
next
  case (Cons e es)
  show ?case by (cases e) (simp_all add: about_def Cons.IH)
qed

lemma progress_values_about: "progress_values n (about n tr) = progress_values n tr"
  by (induction n tr rule: progress_values.induct) (auto simp: about_def)

lemma allowed_calls:
  assumes "\<And>n. list_all (allowed E cfg n) (complete_status (st n) (about n tr))"
  shows "list_all (allowed_call E cfg) (complete_calls st tr)"
proof -
  have "allowed_call E cfg c" if c: "c \<in> set (complete_calls st tr)" for c
  proof -
    have "snd c \<in> set (map snd (filter (\<lambda>c'. fst c' = fst c) (complete_calls st tr)))"
      using c by force
    then have "snd c \<in> set (complete_status (st (fst c)) (about (fst c) tr))"
      by (simp only: complete_calls_about)
    with assms[of "fst c"] show ?thesis by (simp add: list_all_iff allowed_call_def)
  qed
  then show ?thesis by (simp add: list_all_iff)
qed

text \<open>
  C8, amended. In every run, also one that aborts, each \<^verbatim>\<open>complete_step\<close> call finds its step
  with an allowed status: \<^verbatim>\<open>number\<close>, \<^verbatim>\<open>filing_instructions\<close>, \<^verbatim>\<open>merge\<close> and \<^verbatim>\<open>finalize\<close>
  running; \<^verbatim>\<open>extract\<close> running or set to error; \<^verbatim>\<open>compress\<close>, \<^verbatim>\<open>toc\<close> and \<^verbatim>\<open>cover\<close> running when
  the feature is enabled and never announced when it is not.
\<close>

theorem complete_step_calls:
  "list_all (allowed_call E cfg)
     (complete_calls no_status (events (fst (process_func E cfg files zip_files (fresh s)))))"
proof (rule allowed_calls)
  fix n
  show "list_all (allowed E cfg n)
      (complete_status (no_status n) (about n (events (fst (process_func E cfg files zip_files (fresh s))))))"
    using process_func_inv[of E cfg files zip_files s]
    by (simp add: inv_def seg_local_def no_status_def)
qed

text \<open>
  C8, as stated: every \<^verbatim>\<open>complete_step\<close> call is on a running step. The run of three files
  with the cover letter disabled calls \<^verbatim>\<open>complete_step("cover")\<close> on a step that was never
  announced.
\<close>

theorem complete_step_counterexample:
  "\<not> list_all called_while_running
       (complete_calls no_status (events (fst (process_func env_ok cfg_default three_files [] s_init))))"
  by code_simp

text \<open>
  C9. Under a float arithmetic whose rounding is monotone and exact on 0, 1 and 100, the
  values passed to \<^verbatim>\<open>set_step_progress\<close> for any step in a run, also one that aborts, lie
  between 0 and 100 and never decrease.
\<close>

theorem progress_in_range_and_monotone:
  assumes "rounding (fl E)"
  shows "sorted (progress_values n (events (fst (process_func E cfg files zip_files (fresh s)))))
       \<and> list_all (\<lambda>p. 0 \<le> p \<and> p \<le> 100)
           (progress_values n (events (fst (process_func E cfg files zip_files (fresh s)))))"
  using process_func_inv[of E cfg files zip_files s] assms
  by (auto simp: inv_def seg_local_def progress_values_about in_range_def list_all_iff
        dest!: spec[of _ n])

text \<open>The run of three files in \<open>env_ok\<close>, whose arithmetic is exact.\<close>

theorem progress_in_range_and_monotone_witness:
  "rounding (fl env_ok)
   \<and> progress_values ''number'' (events (fst (process_func env_ok cfg_default three_files [] (fresh s_init))))
       = [100 / 3, 200 / 3, 100]
   \<and> sorted (progress_values ''number''
        (events (fst (process_func env_ok cfg_default three_files [] (fresh s_init)))))"
proof -
  have r: "rounding (fl env_ok)" by (simp add: rounding_def env_ok_def mono_def)
  have v: "progress_values ''number'' (events (fst (process_func env_ok cfg_default three_files [] (fresh s_init))))
       = [100 / 3, 200 / 3, 100]"
    by code_simp
  from progress_in_range_and_monotone[OF r, of "''number''" cfg_default three_files "[]" s_init] r v
  show ?thesis by blast
qed

section \<open>Runs that return\<close>

subsection \<open>What a returning step has done\<close>

lemma completed_progress [simp]: "completed (map (\<lambda>k. SetStepProgress n (f k)) ks) = []"
  by (induction ks) simp_all

lemma completed_errors [simp]: "completed (map (\<lambda>m. UpdateStep n st (g m)) ms) = []"
  by (induction ms) simp_all

lemma step_extract_completed:
  assumes "step_extract E tmp_dir files zip_files s = (s', Inr fps)"
  shows "completed (events s') = completed (events s) @ [''extract'']"
proof -
  let ?s0 = "update_step s ''extract'' ''running'' None"
  obtain s1 r1 where e1: "extract_files E tmp_dir (length files) 0 files [] ?s0 = (s1, r1)"
    by (cases "extract_files E tmp_dir (length files) 0 files [] ?s0") auto
  from assms e1 obtain fps1 where r1: "r1 = Inr fps1"
    by (cases r1) (auto simp: step_extract_def)
  obtain s2 r2 where e2: "extract_zips E tmp_dir zip_files fps1 s1 = (s2, r2)"
    by (cases "extract_zips E tmp_dir zip_files fps1 s1") auto
  from assms e1 r1 e2 have s': "s' = complete_step s2 ''extract''"
    by (cases r2) (auto simp: step_extract_def)
  from extract_files_events[OF e1] extract_zips_events[OF e2] show ?thesis
    unfolding s' by auto
qed

lemma step_compress_completed:
  assumes "step_compress E cfg fps res s = (s', Inr out)"
  shows "completed (events s') = completed (events s) @ [''compress'']"
proof (cases "enable_compression cfg \<and> has_compressor E")
  case False
  then show ?thesis using assms by (auto simp: step_compress_def)
next
  case True
  let ?s0 = "update_step s ''compress'' ''running'' None"
  obtain s1 r1 where e1: "compress_loop E (length fps) 0 fps [] res ?s0 = (s1, r1)"
    by (cases "compress_loop E (length fps) 0 fps [] res ?s0") auto
  from assms e1 True have s': "s' = complete_step s1 ''compress''"
    by (cases r1) (auto simp: step_compress_def)
  from compress_loop_events[OF e1] show ?thesis unfolding s' by auto
qed

lemma step_number_completed:
  assumes "step_number E cfg fps crs res s = (s', Inr out)"
  shows "completed (events s') = completed (events s) @ [''number'']"
proof -
  let ?s0 = "update_step s ''number'' ''running'' None"
  obtain s1 r1 where e1: "number_loop E cfg (length fps) crs 0 fps ([], [], res, None) ?s0 = (s1, r1)"
    by (cases "number_loop E cfg (length fps) crs 0 fps ([], [], res, None) ?s0") auto
  from assms e1 have s': "s' = complete_step s1 ''number''"
    by (cases r1) (auto simp: step_number_def)
  from number_loop_events[OF e1] show ?thesis unfolding s' by auto
qed

lemma step_toc_completed:
  assumes "step_toc E cfg tmp_dir el nfs s = (s', Inr nfs')"
  shows "completed (events s') = completed (events s) @ [''toc'']"
  using assms by (auto simp: step_toc_def Let_def split: if_splits prod.splits sum.splits)

lemma step_cover_completed:
  assumes "step_cover E cfg tmp_dir el res s = (s', res')"
  shows "completed (events s') = completed (events s) @ [''cover'']"
    and "output_file res' = output_file res"
  using assms by (auto simp: step_cover_def Let_def split: if_splits prod.splits option.splits)

lemma step_filing_instructions_completed:
  assumes "step_filing_instructions E cfg tmp_dir el res s = (s', res')"
  shows "completed (events s') = completed (events s) @ [''filing_instructions'']"
    and "output_file res' = output_file res"
  using assms
  by (auto simp: step_filing_instructions_def Let_def split: if_splits prod.splits option.splits)

lemma step_merge_completed:
  assumes "step_merge E cfg tmp_dir nfs res s = (s', Inr res')"
  shows "completed (events s') = completed (events s) @ [''merge'']"
    and "output_file res' = (if nfs = [] then None else Some (final_output_path E))"
  using assms
  by (auto simp: step_merge_def Let_def split: if_splits prod.splits sum.splits list.splits)

lemma step_finalize_completed:
  assumes "step_finalize E cfg el crs res s = (s', res')"
  shows "completed (events s') = completed (events s) @ [''finalize'']"
    and "res' = res" and "ss_exhibit_list s' = Some el"
  using assms by (auto simp: step_finalize_def Let_def split: list.splits)

lemma process_body_Inr:
  assumes "process_body E cfg files zip_files tmp_dir s = (s', Inr res)"
  obtains s1 fps s2 crs res2 s3 nfs el res3 s4 nfs' s5 res5 s6 res6 s7 res7 where
    "step_extract E tmp_dir files zip_files s = (s1, Inr fps)"
    "step_compress E cfg fps result0 s1 = (s2, Inr (crs, res2))"
    "step_number E cfg fps crs res2 s2 = (s3, Inr (nfs, el, res3))"
    "step_toc E cfg tmp_dir el nfs s3 = (s4, Inr nfs')"
    "step_cover E cfg tmp_dir el res3 s4 = (s5, res5)"
    "step_filing_instructions E cfg tmp_dir el res5 s5 = (s6, res6)"
    "step_merge E cfg tmp_dir nfs' res6 s6 = (s7, Inr res7)"
    "step_finalize E cfg el crs res7 s7 = (s', res)"
  using assms
  by (auto simp: process_body_def split: prod.splits sum.splits)

lemma process_body_returns:
  assumes "process_body E cfg files zip_files tmp_dir s = (s', Inr res)" and "events s = []"
  shows "completed (events s') = step_names"
    and "\<exists>fps el. snd (step_extract E tmp_dir files zip_files s) = Inr fps
          \<and> ss_exhibit_list s' = Some el"
proof -
  from assms(1) obtain s1 fps s2 crs res2 s3 nfs el res3 s4 nfs' s5 res5 s6 res6 s7 res7 where
    e: "step_extract E tmp_dir files zip_files s = (s1, Inr fps)"
    "step_compress E cfg fps result0 s1 = (s2, Inr (crs, res2))"
    "step_number E cfg fps crs res2 s2 = (s3, Inr (nfs, el, res3))"
    "step_toc E cfg tmp_dir el nfs s3 = (s4, Inr nfs')"
    "step_cover E cfg tmp_dir el res3 s4 = (s5, res5)"
    "step_filing_instructions E cfg tmp_dir el res5 s5 = (s6, res6)"
    "step_merge E cfg tmp_dir nfs' res6 s6 = (s7, Inr res7)"
    "step_finalize E cfg el crs res7 s7 = (s', res)"
    by (rule process_body_Inr)
  show "completed (events s') = step_names"
    using step_extract_completed[OF e(1)] step_compress_completed[OF e(2)]
      step_number_completed[OF e(3)] step_toc_completed[OF e(4)] step_cover_completed(1)[OF e(5)]
      step_filing_instructions_completed(1)[OF e(6)] step_merge_completed(1)[OF e(7)]
      step_finalize_completed(1)[OF e(8)] assms(2)
    by (simp add: step_names_def)
  show "\<exists>fps el. snd (step_extract E tmp_dir files zip_files s) = Inr fps
          \<and> ss_exhibit_list s' = Some el"
    using e(1) step_finalize_completed(3)[OF e(8)] by simp
qed

lemma process_func_body:
  assumes "mkdtemp E = Inr tmp_dir"
  shows "fst (process_func E cfg files zip_files s) = fst (process_body E cfg files zip_files tmp_dir s)"
    and "snd (process_func E cfg files zip_files s) = Inr res
         \<longleftrightarrow> snd (process_body E cfg files zip_files tmp_dir s) = Inr res"
    and "snd (process_body E cfg files zip_files tmp_dir s) = Inl e
         \<Longrightarrow> snd (process_func E cfg files zip_files s)
             = Inl (Exn ''RuntimeError'' (S ''Failed to process exhibits: '' @ exn_msg e))"
  using assms
  by (auto simp: process_func_def split: prod.splits sum.splits)

subsection \<open>The empty run\<close>










subsection \<open>What the loops return\<close>

lemma extract_files_result:
  "extract_files E tmp_dir n i files fps s = (s', Inr fps') \<Longrightarrow>
   fps' = fps @ map (\<lambda>f. path_join tmp_dir (name f)) files"
proof (induction files arbitrary: i fps s)
  case Nil
  then show ?case by simp
next
  case (Cons f rest)
  show ?case
  proof (cases "write_file E (disk s) (path_join tmp_dir (name f)) (read f)")
    case (Inl e)
    with Cons.prems show ?thesis by (simp add: Let_def)
  next
    case (Inr d)
    with Cons.prems
    have "extract_files E tmp_dir n (Suc i) rest (fps @ [path_join tmp_dir (name f)])
            (set_step_progress (s\<lparr>disk := d\<rparr>) ''extract'' (pct E (Suc i) (max n 1))) = (s', Inr fps')"
      by (simp add: Let_def percent_max)
    from Cons.IH[OF this] show ?thesis by simp
  qed
qed

lemma compress_loop_Inl:
  "compress_loop E n i fps crs res s = (s', Inl e) \<Longrightarrow> n = i + length fps \<Longrightarrow>
   \<exists>d p. fst (compress E d p) = Inl e"
proof (induction fps arbitrary: i crs res s)
  case Nil
  then show ?case by simp
next
  case (Cons file_path rest)
  have n: "0 < n" using Cons.prems(2) by simp
  obtain c d where c: "compress E (disk s) file_path = (c, d)"
    by (cases "compress E (disk s) file_path") auto
  show ?case
  proof (cases c)
    case (Inl e')
    with Cons.prems(1) c have "e' = e" by simp
    with c Inl have "fst (compress E (disk s) file_path) = Inl e" by simp
    then show ?thesis by blast
  next
    case (Inr comp_result)
    from Cons.prems(1) c Inr n obtain crs' res' where
      "compress_loop E n (Suc i) rest crs' res'
         (set_step_progress (s\<lparr>disk := d\<rparr>) ''compress'' (pct E (Suc i) n)) = (s', Inl e)"
      by (simp add: Let_def percent_pct)
    from Cons.IH[OF this] Cons.prems(2) show ?thesis by simp
  qed
qed

lemma step_compress_Inl:
  assumes "snd (step_compress E cfg fps res s) = Inl e"
  shows "\<exists>d p. fst (compress E d p) = Inl e"
proof (cases "enable_compression cfg \<and> has_compressor E")
  case False
  then show ?thesis using assms by (auto simp: step_compress_def)
next
  case True
  let ?s0 = "update_step s ''compress'' ''running'' None"
  obtain s1 r1 where e1: "compress_loop E (length fps) 0 fps [] res ?s0 = (s1, r1)"
    by (cases "compress_loop E (length fps) 0 fps [] res ?s0") auto
  from assms True e1 have "r1 = Inl e" by (cases r1) (auto simp: step_compress_def)
  with e1 compress_loop_Inl[of E "length fps" 0 fps "[]" res ?s0 s1 e] show ?thesis by simp
qed

lemma ai_analysis_fields:
  assumes "ai_analysis E cfg d file_path info cb = (info', cb')"
  shows "number info' = number info" "filename info' = filename info" "pages info' = pages info"
    "compression info' = compression info"
  using assms
  by (auto simp: ai_analysis_def Let_def split: option.splits sum.splits if_splits)

lemma number_loop_result:
  "number_loop E cfg n crs i fps (nfs, el, res, cb) s = (s', Inr (nfs', el', res')) \<Longrightarrow>
   n = i + length fps \<Longrightarrow>
   \<exists>new newf. el' = el @ new \<and> nfs' = nfs @ newf \<and> length newf = length fps
     \<and> map filename new = map basename fps
     \<and> map (\<lambda>x. Inr (number x)) new = map (exhibit_num (numbering_style cfg)) [i..<i + length fps]
     \<and> total_pages res' = total_pages res + sum_list (map pages new)"
proof (induction fps arbitrary: i nfs el res cb s)
  case Nil
  then show ?case by simp
next
  case (Cons file_path rest)
  have n: "0 < n" using Cons.prems(2) by simp
  obtain num where num: "exhibit_num (numbering_style cfg) i = Inr num"
    using Cons.prems(1) by (cases "exhibit_num (numbering_style cfg) i") auto
  let ?info0 = "initial_info E (disk s) file_path num"
  obtain info cb' where ai: "ai_analysis E cfg (disk s) file_path ?info0 cb = (info, cb')"
    by (cases "ai_analysis E cfg (disk s) file_path ?info0 cb") auto
  obtain nf d where nf: "numbered_file_of E cfg (disk s) file_path num info cb' = (nf, d)"
    by (cases "numbered_file_of E cfg (disk s) file_path num info cb'") auto
  from Cons.prems(1) num ai nf obtain numbered_file where nfr: "nf = Inr numbered_file"
    by (cases nf) auto
  define info' where "info' =
     (if i < length crs then
        info\<lparr>compression :=
               Some \<lparr>reduction = get_or 0 (cr_reduction_percent (crs ! i)),
                     cmethod = get_or (S ''none'') (cr_method (crs ! i))\<rparr>\<rparr>
      else info)"
  have f: "number info' = num" "filename info' = basename file_path"
    using ai_analysis_fields(1,2)[OF ai] by (simp_all add: info'_def initial_info_def)
  from Cons.prems(1) num ai nf nfr n
  have "number_loop E cfg n crs (Suc i) rest
          (nfs @ [numbered_file], el @ [info'], res\<lparr>total_pages := total_pages res + pages info'\<rparr>, cb')
          (set_step_progress (s\<lparr>disk := d\<rparr>) ''number'' (pct E (Suc i) n)) = (s', Inr (nfs', el', res'))"
    by (simp add: Let_def percent_pct info'_def)
  from Cons.IH[OF this] Cons.prems(2) obtain new newf where
    r: "el' = (el @ [info']) @ new" "nfs' = (nfs @ [numbered_file]) @ newf" "length newf = length rest"
       "map filename new = map basename rest"
       "map (\<lambda>x. Inr (number x)) new = map (exhibit_num (numbering_style cfg)) [Suc i..<Suc i + length rest]"
       "total_pages res' = total_pages (res\<lparr>total_pages := total_pages res + pages info'\<rparr>) + sum_list (map pages new)"
    by auto
  have u: "[i..<i + length (file_path # rest)] = i # [Suc i..<Suc i + length rest]"
    by (subst upt_rec) simp
  show ?case
    by (intro exI[of _ "info' # new"] exI[of _ "numbered_file # newf"])
       (use r f num u in simp)
qed

lemma step_number_result:
  assumes "step_number E cfg fps crs res s = (s', Inr (nfs, el, res'))"
  shows "length el = length fps" "length nfs = length fps" "map filename el = map basename fps"
    "map (\<lambda>x. Inr (number x)) el = map (exhibit_num (numbering_style cfg)) [0..<length fps]"
    "total_pages res' = total_pages res + sum_list (map pages el)"
proof -
  let ?s0 = "update_step s ''number'' ''running'' None"
  obtain s1 r1 where e1: "number_loop E cfg (length fps) crs 0 fps ([], [], res, None) ?s0 = (s1, r1)"
    by (cases "number_loop E cfg (length fps) crs 0 fps ([], [], res, None) ?s0") auto
  from assms e1 have "r1 = Inr (nfs, el, res')" by (cases r1) (auto simp: step_number_def)
  with e1 number_loop_result[of E cfg "length fps" crs 0 fps "[]" "[]" res None ?s0 s1 nfs el res']
  obtain new newf where r: "el = new" "nfs = newf" "length newf = length fps"
     "map filename new = map basename fps"
     "map (\<lambda>x. Inr (number x)) new = map (exhibit_num (numbering_style cfg)) [0..<length fps]"
     "total_pages res' = total_pages res + sum_list (map pages new)"
    by auto
  from r show "length nfs = length fps" "map filename el = map basename fps"
    "map (\<lambda>x. Inr (number x)) el = map (exhibit_num (numbering_style cfg)) [0..<length fps]"
    "total_pages res' = total_pages res + sum_list (map pages el)"
    by simp_all
  from r(4) have "length (map filename new) = length (map basename fps)" by simp
  then show "length el = length fps" using r(1) by simp
qed

lemma step_extract_uploads:
  assumes "step_extract E tmp_dir files [] s = (s', Inr fps)"
  shows "fps = map (\<lambda>f. path_join tmp_dir (name f)) files"
proof -
  let ?s0 = "update_step s ''extract'' ''running'' None"
  obtain s1 r1 where e1: "extract_files E tmp_dir (length files) 0 files [] ?s0 = (s1, r1)"
    by (cases "extract_files E tmp_dir (length files) 0 files [] ?s0") auto
  from assms e1 have "r1 = Inr fps" by (cases r1) (auto simp: step_extract_def)
  with e1 extract_files_result[of E tmp_dir "length files" 0 files "[]" ?s0 s1 fps]
  show ?thesis by simp
qed

subsection \<open>A raise of the compress step, and the exhibits of a run that returns\<close>

lemma compress_raise_aborts:
  assumes "step_extract E tmp_dir files zip_files s = (s1, Inr fps)"
      and "snd (step_compress E cfg fps result0 s1) = Inl e"
  shows "snd (process_body E cfg files zip_files tmp_dir s) = Inl e"
  using assms by (auto simp: process_body_def split: prod.splits sum.splits)

lemma returning_run:
  assumes "process_body E cfg files zip_files tmp_dir s = (s', Inr res)"
  shows "\<exists>fps el. snd (step_extract E tmp_dir files zip_files s) = Inr fps
           \<and> ss_exhibit_list s' = Some el \<and> length el = length fps
           \<and> map filename el = map basename fps
           \<and> (zip_files = [] \<longrightarrow> length el = length files)"
proof -
  from assms obtain s1 fps s2 crs res2 s3 nfs el res3 s4 nfs' s5 res5 s6 res6 s7 res7 where
    e: "step_extract E tmp_dir files zip_files s = (s1, Inr fps)"
    "step_compress E cfg fps result0 s1 = (s2, Inr (crs, res2))"
    "step_number E cfg fps crs res2 s2 = (s3, Inr (nfs, el, res3))"
    "step_toc E cfg tmp_dir el nfs s3 = (s4, Inr nfs')"
    "step_cover E cfg tmp_dir el res3 s4 = (s5, res5)"
    "step_filing_instructions E cfg tmp_dir el res5 s5 = (s6, res6)"
    "step_merge E cfg tmp_dir nfs' res6 s6 = (s7, Inr res7)"
    "step_finalize E cfg el crs res7 s7 = (s', res)"
    by (rule process_body_Inr)
  have "zip_files = [] \<longrightarrow> length el = length files"
    using step_extract_uploads[of E tmp_dir files s s1 fps] e(1) step_number_result(1)[OF e(3)]
    by auto
  then show ?thesis
    using e(1) step_number_result(1,3)[OF e(3)] step_finalize_completed(3)[OF e(8)] by auto
qed

subsection \<open>The files of step 1\<close>

lemma extract_files_disk:
  "extract_files E tmp_dir n i files fps s = (s', Inr fps') \<Longrightarrow>
   disk s' = foldl (\<lambda>d f. d(path_join tmp_dir (name f) \<mapsto> read f)) (disk s) files"
proof (induction files arbitrary: i fps s)
  case Nil
  then show ?case by simp
next
  case (Cons f rest)
  show ?case
  proof (cases "write_file E (disk s) (path_join tmp_dir (name f)) (read f)")
    case (Inl e)
    with Cons.prems show ?thesis by (simp add: Let_def)
  next
    case (Inr d)
    then have d: "d = (disk s)(path_join tmp_dir (name f) \<mapsto> read f)"
      by (auto simp: write_file_def split: if_splits)
    from Inr Cons.prems
    have "extract_files E tmp_dir n (Suc i) rest (fps @ [path_join tmp_dir (name f)])
            (set_step_progress (s\<lparr>disk := d\<rparr>) ''extract'' (pct E (Suc i) (max n 1))) = (s', Inr fps')"
      by (simp add: Let_def percent_max)
    from Cons.IH[OF this] d show ?thesis by simp
  qed
qed

lemma foldl_last_write:
  "k < length files \<Longrightarrow>
   (\<forall>m. k < m \<and> m < length files \<longrightarrow> g (files ! m) \<noteq> g (files ! k)) \<Longrightarrow>
   foldl (\<lambda>d f. d(g f \<mapsto> h f)) d0 files (g (files ! k)) = Some (h (files ! k))"
proof (induction files rule: rev_induct)
  case Nil
  then show ?case by simp
next
  case (snoc x xs)
  show ?case
  proof (cases "k = length xs")
    case True
    then show ?thesis by simp
  next
    case False
    with snoc.prems(1) have k: "k < length xs" by simp
    from snoc.prems(2)[rule_format, of "length xs"] k
    have ne: "g x \<noteq> g (xs ! k)" by (simp add: nth_append)
    have "\<forall>m. k < m \<and> m < length xs \<longrightarrow> g (xs ! m) \<noteq> g (xs ! k)"
    proof (intro allI impI)
      fix m assume m: "k < m \<and> m < length xs"
      with snoc.prems(2)[rule_format, of m] k show "g (xs ! m) \<noteq> g (xs ! k)"
        by (simp add: nth_append)
    qed
    from snoc.IH[OF k this] ne k show ?thesis by (simp add: nth_append)
  qed
qed

lemma extract_zips_prefix:
  "extract_zips E tmp_dir zs fps s = (s', Inr fps') \<Longrightarrow> take (length fps) fps' = fps"
proof (induction zs arbitrary: fps s)
  case Nil
  then show ?case by simp
next
  case (Cons z rest)
  show ?case
  proof (cases z)
    case (ZOther r)
    with Cons.prems Cons.IH show ?thesis by simp
  next
    case (ZStr p)
    show ?thesis
    proof (cases "isabs p \<and> exists E (disk s) p")
      case False
      with Cons.prems ZStr Cons.IH show ?thesis by (auto split: if_splits)
    next
      case True
      with Cons.prems ZStr obtain d where
        "extract_zips E tmp_dir rest (fps @ [path_join tmp_dir (basename p)]) (s\<lparr>disk := d\<rparr>) = (s', Inr fps')"
        by (cases "copy E (disk s) p (path_join tmp_dir (basename p))") (auto simp: Let_def)
      from Cons.IH[OF this]
      have "take (length fps) (take (length (fps @ [path_join tmp_dir (basename p)])) fps') = fps"
        by simp
      then show ?thesis by (simp add: min_def)
    qed
  qed
qed

lemma copy_writes:
  "copy E d src dst = Inr d' \<Longrightarrow> \<exists>data. d src = Some data \<and> d' = d(dst \<mapsto> data)"
  by (auto simp: copy_def write_file_def split: option.splits if_splits)

lemma extract_zips_disk_other:
  "extract_zips E tmp_dir zs fps s = (s', Inr fps') \<Longrightarrow>
   (\<forall>p. ZStr p \<in> set zs \<longrightarrow> path_join tmp_dir (basename p) \<noteq> x) \<Longrightarrow>
   disk s' x = disk s x"
proof (induction zs arbitrary: fps s)
  case Nil
  then show ?case by simp
next
  case (Cons z rest)
  have rest: "\<forall>p. ZStr p \<in> set rest \<longrightarrow> path_join tmp_dir (basename p) \<noteq> x"
    using Cons.prems(2) by simp
  show ?case
  proof (cases z)
    case (ZOther r)
    with Cons.prems(1) Cons.IH[OF _ rest] show ?thesis by (simp add: update_step_simps)
  next
    case (ZStr p)
    show ?thesis
    proof (cases "isabs p \<and> exists E (disk s) p")
      case False
      with Cons.prems(1) ZStr Cons.IH[OF _ rest] show ?thesis
        by (auto simp: update_step_simps split: if_splits)
    next
      case True
      with Cons.prems(1) ZStr obtain d where
        c: "copy E (disk s) p (path_join tmp_dir (basename p)) = Inr d" and
        e: "extract_zips E tmp_dir rest (fps @ [path_join tmp_dir (basename p)]) (s\<lparr>disk := d\<rparr>) = (s', Inr fps')"
        by (cases "copy E (disk s) p (path_join tmp_dir (basename p))") (auto simp: Let_def)
      from Cons.prems(2) ZStr have "path_join tmp_dir (basename p) \<noteq> x" by simp
      with copy_writes[OF c] have "d x = disk s x" by auto
      with Cons.IH[OF e rest] show ?thesis by simp
    qed
  qed
qed

lemma step_extract_Inr:
  assumes "step_extract E tmp_dir files zip_files s = (s', Inr fps)"
  obtains s1 s2 where
    "extract_files E tmp_dir (length files) 0 files [] (update_step s ''extract'' ''running'' None)
       = (s1, Inr (map (\<lambda>f. path_join tmp_dir (name f)) files))"
    "extract_zips E tmp_dir zip_files (map (\<lambda>f. path_join tmp_dir (name f)) files) s1 = (s2, Inr fps)"
    "s' = complete_step s2 ''extract''"
proof -
  let ?s0 = "update_step s ''extract'' ''running'' None"
  obtain s1 r1 where e1: "extract_files E tmp_dir (length files) 0 files [] ?s0 = (s1, r1)"
    by (cases "extract_files E tmp_dir (length files) 0 files [] ?s0") auto
  from assms e1 obtain fps1 where r1: "r1 = Inr fps1" by (cases r1) (auto simp: step_extract_def)
  from extract_files_result[of E tmp_dir "length files" 0 files "[]" ?s0 s1 fps1] e1 r1
  have f1: "fps1 = map (\<lambda>f. path_join tmp_dir (name f)) files" by simp
  obtain s2 r2 where e2: "extract_zips E tmp_dir zip_files fps1 s1 = (s2, r2)"
    by (cases "extract_zips E tmp_dir zip_files fps1 s1") auto
  from assms e1 r1 e2 have "r2 = Inr fps" "s' = complete_step s2 ''extract''"
    by (cases r2; auto simp: step_extract_def)+
  with e1 r1 f1 e2 that show ?thesis by simp
qed

text \<open>
  Claim C10.  When step 1 returns, the first entries of the working set are the uploads' paths,
  \<open>os.path.join(tmp_dir, file.name)\<close> in input order; two uploads of one name have the same
  entry; and an entry that no archive path is copied to holds, at the end of the step, what the
  last upload written to that path has read: every earlier upload to the path is overwritten.
\<close>

theorem same_name_overwrites:
  assumes "step_extract E tmp_dir files zip_files s = (s', Inr fps)"
  shows "take (length files) fps = map (\<lambda>f. path_join tmp_dir (name f)) files
       \<and> (j < length files \<and> k < length files \<and> name (files ! j) = name (files ! k)
            \<longrightarrow> fps ! j = fps ! k)
       \<and> (j < length files \<and> k < length files \<and> fps ! j = fps ! k
            \<and> (\<forall>m. k < m \<and> m < length files \<longrightarrow> fps ! m \<noteq> fps ! k)
            \<and> (\<forall>p. ZStr p \<in> set zip_files \<longrightarrow> path_join tmp_dir (basename p) \<noteq> fps ! k)
            \<longrightarrow> disk s' (fps ! j) = Some (read (files ! k)))"
proof -
  let ?g = "\<lambda>f. path_join tmp_dir (name f)"
  from assms obtain s1 s2 where
    e1: "extract_files E tmp_dir (length files) 0 files [] (update_step s ''extract'' ''running'' None)
       = (s1, Inr (map ?g files))" and
    e2: "extract_zips E tmp_dir zip_files (map ?g files) s1 = (s2, Inr fps)" and
    s': "s' = complete_step s2 ''extract''"
    by (rule step_extract_Inr)
  from extract_zips_prefix[OF e2] have t: "take (length files) fps = map ?g files" by simp
  have n: "fps ! m = ?g (files ! m)" if "m < length files" for m
  proof -
    from that have "fps ! m = take (length files) fps ! m" by simp
    also have "\<dots> = ?g (files ! m)" using t that by simp
    finally show ?thesis .
  qed
  have a: "j < length files \<and> k < length files \<and> name (files ! j) = name (files ! k)
            \<longrightarrow> fps ! j = fps ! k"
    using n by simp
  have b: "disk s' (fps ! j) = Some (read (files ! k))"
    if h: "j < length files \<and> k < length files \<and> fps ! j = fps ! k
            \<and> (\<forall>m. k < m \<and> m < length files \<longrightarrow> fps ! m \<noteq> fps ! k)
            \<and> (\<forall>p. ZStr p \<in> set zip_files \<longrightarrow> path_join tmp_dir (basename p) \<noteq> fps ! k)"
  proof -
    from h have k: "k < length files" by simp
    from h n have l: "\<forall>m. k < m \<and> m < length files \<longrightarrow> ?g (files ! m) \<noteq> ?g (files ! k)"
      by auto
    from h n k have z: "\<forall>p. ZStr p \<in> set zip_files \<longrightarrow> path_join tmp_dir (basename p) \<noteq> ?g (files ! k)"
      by auto
    have "disk s1 (?g (files ! k)) = Some (read (files ! k))"
      unfolding extract_files_disk[OF e1] by (rule foldl_last_write[OF k l])
    with extract_zips_disk_other[OF e2 z] have "disk s2 (?g (files ! k)) = Some (read (files ! k))"
      by simp
    with s' h n k show ?thesis by (simp add: complete_step_simps)
  qed
  from t a b show ?thesis by blast
qed

theorem same_name_overwrites_witness:
  "snd (step_extract env_ok (S ''/tmp/run'') same_name_files [] s_init)
     = Inr [S ''/tmp/run/a.pdf'', S ''/tmp/run/b.pdf'', S ''/tmp/run/a.pdf'']
   \<and> name (same_name_files ! 0) = name (same_name_files ! 2)
   \<and> disk (fst (step_extract env_ok (S ''/tmp/run'') same_name_files [] s_init)) (S ''/tmp/run/a.pdf'')
       = Some (S ''second'')"
proof -
  have r: "step_extract env_ok (S ''/tmp/run'') same_name_files [] s_init
      = (fst (step_extract env_ok (S ''/tmp/run'') same_name_files [] s_init),
         Inr [S ''/tmp/run/a.pdf'', S ''/tmp/run/b.pdf'', S ''/tmp/run/a.pdf''])"
    unfolding prod_eq_iff fst_conv snd_conv by (intro conjI refl) code_simp
  have l: "length same_name_files = 3" by (simp add: same_name_files_def)
  have nm: "name (same_name_files ! 0) = name (same_name_files ! 2)"
    by (simp add: same_name_files_def)
  have rd: "read (same_name_files ! 2) = S ''second''" by (simp add: same_name_files_def)
  have ne: "S ''/tmp/run/b.pdf'' \<noteq> S ''/tmp/run/a.pdf''" by (simp add: S_def)
  from same_name_overwrites[OF r, of 0 2] l nm rd ne show ?thesis
    by (simp add: r[THEN arg_cong, of snd])
qed

subsection \<open>Rejected archive paths\<close>

lemma extract_files_returns:
  assumes w: "\<forall>f\<in>set files. \<not> is_dir E (path_join tmp_dir (name f)) \<and> writable E (path_join tmp_dir (name f))"
  shows "\<exists>s'. extract_files E tmp_dir n i files fps s
              = (s', Inr (fps @ map (\<lambda>f. path_join tmp_dir (name f)) files))
     \<and> events s' = events s
          @ map (\<lambda>k. SetStepProgress ''extract'' (pct E k (max n 1))) [Suc i..<Suc i + length files]
     \<and> (\<forall>x. x \<in> set (map (\<lambda>f. path_join tmp_dir (name f)) files) \<or> disk s x \<noteq> None
            \<longrightarrow> disk s' x \<noteq> None)
     \<and> (\<forall>x. x \<notin> set (map (\<lambda>f. path_join tmp_dir (name f)) files) \<longrightarrow> disk s' x = disk s x)"
  using w
proof (induction files arbitrary: i fps s)
  case Nil
  then show ?case by simp
next
  case (Cons f rest)
  let ?g = "\<lambda>f. path_join tmp_dir (name f)"
  let ?d = "(disk s)(?g f \<mapsto> read f)"
  let ?s1 = "set_step_progress (s\<lparr>disk := ?d\<rparr>) ''extract'' (pct E (Suc i) (max n 1))"
  have wf: "write_file E (disk s) (?g f) (read f) = Inr ?d"
    using Cons.prems by (simp add: write_file_def)
  have "\<forall>f\<in>set rest. \<not> is_dir E (?g f) \<and> writable E (?g f)" using Cons.prems by simp
  from Cons.IH[OF this, of "Suc i" "fps @ [?g f]" ?s1] obtain s' where
    r: "extract_files E tmp_dir n (Suc i) rest (fps @ [?g f]) ?s1 = (s', Inr ((fps @ [?g f]) @ map ?g rest))"
       "events s' = events ?s1
          @ map (\<lambda>k. SetStepProgress ''extract'' (pct E k (max n 1))) [Suc (Suc i)..<Suc (Suc i) + length rest]"
       "\<forall>x. x \<in> set (map ?g rest) \<or> disk ?s1 x \<noteq> None \<longrightarrow> disk s' x \<noteq> None"
       "\<forall>x. x \<notin> set (map ?g rest) \<longrightarrow> disk s' x = disk ?s1 x"
    by blast
  have u: "[Suc i..<Suc i + length (f # rest)] = Suc i # [Suc (Suc i)..<Suc (Suc i) + length rest]"
    by (subst upt_rec) simp
  have "extract_files E tmp_dir n i (f # rest) fps s = (s', Inr (fps @ map ?g (f # rest)))"
    using r(1) wf by (simp add: Let_def percent_max)
  moreover have "events s' = events s
          @ map (\<lambda>k. SetStepProgress ''extract'' (pct E k (max n 1))) [Suc i..<Suc i + length (f # rest)]"
    unfolding u using r(2) by (simp add: set_step_progress_simps)
  moreover have "\<forall>x. x \<in> set (map ?g (f # rest)) \<or> disk s x \<noteq> None \<longrightarrow> disk s' x \<noteq> None"
    using r(3) by (auto simp: set_step_progress_simps)
  moreover have "\<forall>x. x \<notin> set (map ?g (f # rest)) \<longrightarrow> disk s' x = disk s x"
    using r(4) by (auto simp: set_step_progress_simps)
  ultimately show ?case by blast
qed

lemma kept_Cons:
  "kept E d (z # zs) =
     (case z of ZOther r \<Rightarrow> [] | ZStr p \<Rightarrow> if isabs p \<and> exists E d p then [p] else []) @ kept E d zs"
  by (simp add: kept_def)

lemma reported_Cons:
  "reported E d (z # zs) =
     (case z of
        ZOther r \<Rightarrow> [S ''Invalid zip file path: '' @ r]
      | ZStr p \<Rightarrow>
          if \<not> isabs p then [S ''Invalid zip file path: '' @ p]
          else if exists E d p then []
          else [S ''Zip file not found: '' @ p]) @ reported E d zs"
  by (simp add: reported_def)

lemma foldl_last_upd:
  "k < length xs \<Longrightarrow>
   (\<forall>m. k < m \<and> m < length xs \<longrightarrow> g (xs ! m) \<noteq> g (xs ! k)) \<Longrightarrow>
   foldl (\<lambda>d x. d(g x := h x)) d0 xs (g (xs ! k)) = h (xs ! k)"
proof (induction xs rule: rev_induct)
  case Nil
  then show ?case by simp
next
  case (snoc x xs)
  show ?case
  proof (cases "k = length xs")
    case True
    then show ?thesis by simp
  next
    case False
    with snoc.prems(1) have k: "k < length xs" by simp
    from snoc.prems(2)[rule_format, of "length xs"] k
    have ne: "g x \<noteq> g (xs ! k)" by (simp add: nth_append)
    have "\<forall>m. k < m \<and> m < length xs \<longrightarrow> g (xs ! m) \<noteq> g (xs ! k)"
    proof (intro allI impI)
      fix m assume m: "k < m \<and> m < length xs"
      with snoc.prems(2)[rule_format, of m] k show "g (xs ! m) \<noteq> g (xs ! k)"
        by (simp add: nth_append)
    qed
    from snoc.IH[OF k this] ne k show ?thesis by (simp add: nth_append)
  qed
qed

lemma foldl_upd_exists:
  "(\<forall>x\<in>set xs. h x \<noteq> None) \<Longrightarrow> d y \<noteq> None \<or> y \<in> g ` set xs \<Longrightarrow>
   foldl (\<lambda>d x. d(g x := h x)) d xs y \<noteq> None"
proof (induction xs arbitrary: d)
  case Nil
  then show ?case by simp
next
  case (Cons x xs)
  have "(d(g x := h x)) y \<noteq> None \<or> y \<in> g ` set xs" using Cons.prems by auto
  with Cons.IH[of "d(g x := h x)"] Cons.prems(1) show ?case by simp
qed

lemma kept_regular:
  "p \<in> set (kept E d zs) \<Longrightarrow> \<not> is_dir E p \<Longrightarrow> d p \<noteq> None"
  by (auto simp: kept_def exists_def split: zip_entry.splits if_splits)

lemma extract_zips_returns:
  "(\<forall>p\<in>set (kept E d0 zs).
       \<not> is_dir E p \<and> readable E p
       \<and> \<not> is_dir E (path_join tmp_dir (basename p)) \<and> writable E (path_join tmp_dir (basename p))) \<Longrightarrow>
   (\<forall>p. ZStr p \<in> set zs \<longrightarrow> disk s p = d0 p) \<Longrightarrow>
   (\<forall>p q. ZStr p \<in> set zs \<and> q \<in> set (kept E d0 zs) \<longrightarrow> path_join tmp_dir (basename q) \<noteq> p) \<Longrightarrow>
   \<exists>s'. extract_zips E tmp_dir zs fps s
            = (s', Inr (fps @ map (\<lambda>p. path_join tmp_dir (basename p)) (kept E d0 zs)))
     \<and> events s' = events s @ map (\<lambda>m. UpdateStep ''extract'' ''error'' (Some m)) (reported E d0 zs)
     \<and> disk s' = foldl (\<lambda>d p. d(path_join tmp_dir (basename p) := d0 p)) (disk s) (kept E d0 zs)"
proof (induction zs arbitrary: fps s)
  case Nil
  then show ?case by (simp add: kept_def reported_def)
next
  case (Cons z rest)
  let ?dest = "\<lambda>p. path_join tmp_dir (basename p)"
  have sub: "set (kept E d0 rest) \<subseteq> set (kept E d0 (z # rest))" by (auto simp: kept_Cons)
  have cpr: "\<forall>p\<in>set (kept E d0 rest).
       \<not> is_dir E p \<and> readable E p \<and> \<not> is_dir E (?dest p) \<and> writable E (?dest p)"
    using Cons.prems(1) sub by blast
  have noal: "\<forall>p q. ZStr p \<in> set rest \<and> q \<in> set (kept E d0 rest) \<longrightarrow> ?dest q \<noteq> p"
    using Cons.prems(3) sub by auto
  have src: "\<forall>p. ZStr p \<in> set rest \<longrightarrow> disk s p = d0 p" using Cons.prems(2) by simp
  have skip: ?case
    if k: "kept E d0 (z # rest) = kept E d0 rest"
      and m: "reported E d0 (z # rest) = msg # reported E d0 rest"
      and e: "extract_zips E tmp_dir (z # rest) fps s
              = extract_zips E tmp_dir rest fps (update_step s ''extract'' ''error'' (Some msg))"
    for msg
  proof -
    let ?s1 = "update_step s ''extract'' ''error'' (Some msg)"
    have "\<forall>p. ZStr p \<in> set rest \<longrightarrow> disk ?s1 p = d0 p" using src by (simp add: update_step_simps)
    from Cons.IH[OF cpr this noal, of fps] show ?thesis
      unfolding k m e by (auto simp: update_step_simps)
  qed
  show ?case
  proof (cases z)
    case (ZOther r)
    show ?thesis
      by (rule skip[of "S ''Invalid zip file path: '' @ r"]) (simp_all add: ZOther kept_Cons reported_Cons)
  next
    case (ZStr p)
    have dp: "disk s p = d0 p" using Cons.prems(2) ZStr by simp
    then have ex: "exists E (disk s) p = exists E d0 p" by (simp add: exists_def)
    show ?thesis
    proof (cases "isabs p")
      case False
      show ?thesis
        by (rule skip[of "S ''Invalid zip file path: '' @ p"])
           (simp_all add: ZStr False kept_Cons reported_Cons)
    next
      case True
      show ?thesis
      proof (cases "exists E d0 p")
        case False
        show ?thesis
          by (rule skip[of "S ''Zip file not found: '' @ p"])
             (simp_all add: ZStr True False ex kept_Cons reported_Cons)
      next
        case ex0: True
        have k: "kept E d0 (z # rest) = p # kept E d0 rest" by (simp add: kept_Cons ZStr True ex0)
        have m: "reported E d0 (z # rest) = reported E d0 rest"
          by (simp add: reported_Cons ZStr True ex0)
        from Cons.prems(1) k have
          c: "\<not> is_dir E p" "readable E p" "\<not> is_dir E (?dest p)" "writable E (?dest p)"
          by simp_all
        from ex0 c(1) dp obtain data where data: "disk s p = Some data" "d0 p = Some data"
          by (auto simp: exists_def)
        from Cons.prems(3) ZStr k have ne: "?dest p \<noteq> p" by simp
        let ?d = "(disk s)(?dest p := d0 p)"
        have cp: "copy E (disk s) p (?dest p) = Inr ?d"
          using data ne c by (simp add: copy_def write_file_def)
        have "\<forall>q. ZStr q \<in> set rest \<longrightarrow> disk (s\<lparr>disk := ?d\<rparr>) q = d0 q"
        proof (intro allI impI)
          fix q assume q: "ZStr q \<in> set rest"
          with Cons.prems(3) k have "?dest p \<noteq> q" by simp
          with src q show "disk (s\<lparr>disk := ?d\<rparr>) q = d0 q" by simp
        qed
        from Cons.IH[OF cpr this noal, of "fps @ [?dest p]"] obtain s' where
          r: "extract_zips E tmp_dir rest (fps @ [?dest p]) (s\<lparr>disk := ?d\<rparr>)
                = (s', Inr ((fps @ [?dest p]) @ map ?dest (kept E d0 rest)))"
             "events s' = events (s\<lparr>disk := ?d\<rparr>)
                @ map (\<lambda>m. UpdateStep ''extract'' ''error'' (Some m)) (reported E d0 rest)"
             "disk s' = foldl (\<lambda>d p. d(?dest p := d0 p)) (disk (s\<lparr>disk := ?d\<rparr>)) (kept E d0 rest)"
          by blast
        have "extract_zips E tmp_dir (z # rest) fps s
                = (s', Inr (fps @ map ?dest (kept E d0 (z # rest))))"
          unfolding k using r(1) cp by (simp add: ZStr True ex ex0 Let_def)
        moreover have "events s' = events s
                @ map (\<lambda>m. UpdateStep ''extract'' ''error'' (Some m)) (reported E d0 (z # rest))"
          using r(2) by (simp add: m)
        moreover have "disk s' = foldl (\<lambda>d p. d(?dest p := d0 p)) (disk s) (kept E d0 (z # rest))"
          using r(3) by (simp add: k)
        ultimately show ?thesis by blast
      qed
    qed
  qed
qed

text \<open>
  An archive path that exists without being a regular file is not among the rejected ones: a
  directory passes \<^verbatim>\<open>os.path.exists\<close>, and \<^verbatim>\<open>shutil.copy\<close> raises on it, which ends step 1.
\<close>

lemma archive_directory_raises:
  assumes "isabs p" "is_dir E p" "p \<noteq> path_join tmp_dir (basename p)"
  shows "extract_zips E tmp_dir (ZStr p # rest) fps s = (s, Inl (Exn ''IsADirectoryError'' p))"
  using assms by (simp add: exists_def copy_def Let_def)

text \<open>
  Claim C7.  Let the uploads be writable, let the archive paths that are absolute strings and
  exist be regular files that can be copied, and let no archive path be itself a file of the
  working area (an upload's path or the destination of a copied archive path).  Then step 1
  returns.  The working set is the uploads' paths followed by the destinations of the archive
  paths that are absolute strings and exist, in order: the other archive paths are left out.
  Each of these gives one call \<open>update_step("extract", "error", error_message=...)\<close>, between the
  progress reports and \<open>complete_step("extract")\<close>.  Every path of the working set exists at the
  end, and the destination of a copied archive path holds the bytes of that archive path, unless
  a later one is copied to the same destination.
\<close>

theorem rejected_archive_paths:
  assumes "\<forall>f\<in>set files. \<not> is_dir E (path_join tmp_dir (name f)) \<and> writable E (path_join tmp_dir (name f))"
      and "\<forall>p\<in>set (kept E (disk s) zip_files).
             \<not> is_dir E p \<and> readable E p
             \<and> \<not> is_dir E (path_join tmp_dir (basename p)) \<and> writable E (path_join tmp_dir (basename p))"
      and "\<forall>p. ZStr p \<in> set zip_files \<longrightarrow>
             p \<notin> set (map (\<lambda>f. path_join tmp_dir (name f)) files)
             \<and> (\<forall>q\<in>set (kept E (disk s) zip_files). path_join tmp_dir (basename q) \<noteq> p)"
  shows "snd (step_extract E tmp_dir files zip_files s)
           = Inr (map (\<lambda>f. path_join tmp_dir (name f)) files
                  @ map (\<lambda>p. path_join tmp_dir (basename p)) (kept E (disk s) zip_files))
       \<and> events (fst (step_extract E tmp_dir files zip_files s))
           = events s @ [UpdateStep ''extract'' ''running'' None]
             @ map (\<lambda>k. SetStepProgress ''extract'' (pct E k (max (length files) 1)))
                 [1..<Suc (length files)]
             @ map (\<lambda>m. UpdateStep ''extract'' ''error'' (Some m)) (reported E (disk s) zip_files)
             @ [CompleteStep ''extract'']
       \<and> (\<forall>x \<in> set (map (\<lambda>f. path_join tmp_dir (name f)) files
                      @ map (\<lambda>p. path_join tmp_dir (basename p)) (kept E (disk s) zip_files)).
             disk (fst (step_extract E tmp_dir files zip_files s)) x \<noteq> None)
       \<and> (i < length (kept E (disk s) zip_files)
           \<and> (\<forall>m. i < m \<and> m < length (kept E (disk s) zip_files)
                  \<longrightarrow> path_join tmp_dir (basename (kept E (disk s) zip_files ! m))
                        \<noteq> path_join tmp_dir (basename (kept E (disk s) zip_files ! i)))
           \<longrightarrow> disk s (kept E (disk s) zip_files ! i) \<noteq> None
               \<and> disk (fst (step_extract E tmp_dir files zip_files s))
                   (path_join tmp_dir (basename (kept E (disk s) zip_files ! i)))
                 = disk s (kept E (disk s) zip_files ! i))"
proof -
  let ?g = "\<lambda>f. path_join tmp_dir (name f)"
  let ?dest = "\<lambda>p. path_join tmp_dir (basename p)"
  let ?K = "kept E (disk s) zip_files"
  let ?s0 = "update_step s ''extract'' ''running'' None"
  from extract_files_returns[OF assms(1), of "length files" 0 "[]" ?s0] obtain s1 where
    e1: "extract_files E tmp_dir (length files) 0 files [] ?s0 = (s1, Inr (map ?g files))"
        "events s1 = events ?s0
          @ map (\<lambda>k. SetStepProgress ''extract'' (pct E k (max (length files) 1))) [Suc 0..<Suc 0 + length files]"
        "\<forall>x. x \<in> set (map ?g files) \<or> disk ?s0 x \<noteq> None \<longrightarrow> disk s1 x \<noteq> None"
        "\<forall>x. x \<notin> set (map ?g files) \<longrightarrow> disk s1 x = disk ?s0 x"
    by auto
  have src: "\<forall>p. ZStr p \<in> set zip_files \<longrightarrow> disk s1 p = disk s p"
    using e1(4) assms(3) by (simp add: update_step_simps)
  have noal: "\<forall>p q. ZStr p \<in> set zip_files \<and> q \<in> set ?K \<longrightarrow> ?dest q \<noteq> p"
    using assms(3) by blast
  from extract_zips_returns[OF assms(2) src noal, of "map ?g files"] obtain s2 where
    e2: "extract_zips E tmp_dir zip_files (map ?g files) s1 = (s2, Inr (map ?g files @ map ?dest ?K))"
        "events s2 = events s1
           @ map (\<lambda>m. UpdateStep ''extract'' ''error'' (Some m)) (reported E (disk s) zip_files)"
        "disk s2 = foldl (\<lambda>d p. d(?dest p := disk s p)) (disk s1) ?K"
    by blast
  have st: "step_extract E tmp_dir files zip_files s
      = (complete_step s2 ''extract'', Inr (map ?g files @ map ?dest ?K))"
    by (simp add: step_extract_def e1(1) e2(1))
  have ev: "events (complete_step s2 ''extract'')
           = events s @ [UpdateStep ''extract'' ''running'' None]
             @ map (\<lambda>k. SetStepProgress ''extract'' (pct E k (max (length files) 1)))
                 [1..<Suc (length files)]
             @ map (\<lambda>m. UpdateStep ''extract'' ''error'' (Some m)) (reported E (disk s) zip_files)
             @ [CompleteStep ''extract'']"
    using e1(2) e2(2) by (simp add: complete_step_simps update_step_simps)
  have reg: "\<forall>p\<in>set ?K. disk s p \<noteq> None"
    using assms(2) kept_regular[of _ E "disk s" zip_files] by blast
  have ex: "\<forall>x \<in> set (map ?g files @ map ?dest ?K). disk (complete_step s2 ''extract'') x \<noteq> None"
  proof
    fix x assume "x \<in> set (map ?g files @ map ?dest ?K)"
    then have "disk s1 x \<noteq> None \<or> x \<in> ?dest ` set ?K" using e1(3) by auto
    from foldl_upd_exists[of ?K "disk s" "disk s1" x ?dest, OF reg this]
    show "disk (complete_step s2 ''extract'') x \<noteq> None"
      by (simp add: e2(3) complete_step_simps)
  qed
  have byt: "disk s (?K ! i) \<noteq> None
            \<and> disk (complete_step s2 ''extract'') (?dest (?K ! i)) = disk s (?K ! i)"
    if h: "i < length ?K \<and> (\<forall>m. i < m \<and> m < length ?K \<longrightarrow> ?dest (?K ! m) \<noteq> ?dest (?K ! i))"
  proof -
    from h have i: "i < length ?K" and l: "\<forall>m. i < m \<and> m < length ?K \<longrightarrow> ?dest (?K ! m) \<noteq> ?dest (?K ! i)"
      by simp_all
    from foldl_last_upd[of i ?K ?dest "disk s" "disk s1", OF i l]
    have "disk s2 (?dest (?K ! i)) = disk s (?K ! i)" by (simp add: e2(3))
    moreover from reg i have "disk s (?K ! i) \<noteq> None" by simp
    ultimately show ?thesis by (simp add: complete_step_simps)
  qed
  from st ev ex byt show ?thesis by simp
qed

theorem rejected_archive_paths_witness:
  "snd (step_extract env_ok (S ''/tmp/run'') three_files mixed_zip_files s_zip)
     = Inr [S ''/tmp/run/a.pdf'', S ''/tmp/run/b.pdf'', S ''/tmp/run/c.pdf'',
            S ''/tmp/run/x.pdf'', S ''/tmp/run/z.pdf'']
   \<and> events (fst (step_extract env_ok (S ''/tmp/run'') three_files mixed_zip_files s_zip))
     = [UpdateStep ''extract'' ''running'' None,
        SetStepProgress ''extract'' (pct env_ok 1 3), SetStepProgress ''extract'' (pct env_ok 2 3),
        SetStepProgress ''extract'' (pct env_ok 3 3),
        UpdateStep ''extract'' ''error'' (Some (S ''Invalid zip file path: relative/y.pdf'')),
        UpdateStep ''extract'' ''error'' (Some (S ''Zip file not found: /data/missing.pdf'')),
        UpdateStep ''extract'' ''error'' (Some (S ''Invalid zip file path: 42'')),
        CompleteStep ''extract'']
   \<and> disk (fst (step_extract env_ok (S ''/tmp/run'') three_files mixed_zip_files s_zip))
        (S ''/tmp/run/x.pdf'') = Some (S ''XX'')"
proof -
  have k0: "kept env_ok (disk s_zip) mixed_zip_files = [S ''/data/x.pdf'', S ''/data/z.pdf'']"
    by code_simp
  have w: "\<forall>f\<in>set three_files.
      \<not> is_dir env_ok (path_join (S ''/tmp/run'') (name f)) \<and> writable env_ok (path_join (S ''/tmp/run'') (name f))"
    unfolding Ball_set by code_simp
  have c: "\<forall>p\<in>set (kept env_ok (disk s_zip) mixed_zip_files).
             \<not> is_dir env_ok p \<and> readable env_ok p
             \<and> \<not> is_dir env_ok (path_join (S ''/tmp/run'') (basename p))
             \<and> writable env_ok (path_join (S ''/tmp/run'') (basename p))"
    unfolding Ball_set by code_simp
  have l: "list_all (\<lambda>z. case z of
               ZOther r \<Rightarrow> True
             | ZStr p \<Rightarrow>
                 p \<notin> set (map (\<lambda>f. path_join (S ''/tmp/run'') (name f)) three_files)
                 \<and> (\<forall>q\<in>set (kept env_ok (disk s_zip) mixed_zip_files).
                       path_join (S ''/tmp/run'') (basename q) \<noteq> p))
           mixed_zip_files"
    by code_simp
  have a: "\<forall>p. ZStr p \<in> set mixed_zip_files \<longrightarrow>
             p \<notin> set (map (\<lambda>f. path_join (S ''/tmp/run'') (name f)) three_files)
             \<and> (\<forall>q\<in>set (kept env_ok (disk s_zip) mixed_zip_files).
                   path_join (S ''/tmp/run'') (basename q) \<noteq> p)"
  proof (intro allI impI)
    fix p assume p: "ZStr p \<in> set mixed_zip_files"
    from l[unfolded list_all_iff, rule_format, OF p]
    show "p \<notin> set (map (\<lambda>f. path_join (S ''/tmp/run'') (name f)) three_files)
             \<and> (\<forall>q\<in>set (kept env_ok (disk s_zip) mixed_zip_files).
                   path_join (S ''/tmp/run'') (basename q) \<noteq> p)"
      by simp
  qed
  have k: "map (\<lambda>f. path_join (S ''/tmp/run'') (name f)) three_files
                  @ map (\<lambda>p. path_join (S ''/tmp/run'') (basename p)) [S ''/data/x.pdf'', S ''/data/z.pdf'']
       = [S ''/tmp/run/a.pdf'', S ''/tmp/run/b.pdf'', S ''/tmp/run/c.pdf'',
            S ''/tmp/run/x.pdf'', S ''/tmp/run/z.pdf'']"
    by code_simp
  have r: "reported env_ok (disk s_zip) mixed_zip_files
       = [S ''Invalid zip file path: relative/y.pdf'', S ''Zip file not found: /data/missing.pdf'',
          S ''Invalid zip file path: 42'']"
    by code_simp
  have len: "length three_files = 3" by (simp add: three_files_def)
  have u: "[1..<Suc 3] = [1, 2, 3]" "max (3::nat) 1 = 3" by code_simp+
  have e: "events s_zip = []" by (simp add: s_zip_def s_init_def)
  have d: "path_join (S ''/tmp/run'') (basename (S ''/data/x.pdf'')) = S ''/tmp/run/x.pdf''"
          "path_join (S ''/tmp/run'') (basename (S ''/data/z.pdf'')) = S ''/tmp/run/z.pdf''"
          "S ''/tmp/run/z.pdf'' \<noteq> S ''/tmp/run/x.pdf''"
          "disk s_zip (S ''/data/x.pdf'') = Some (S ''XX'')"
    by code_simp+
  note t = rejected_archive_paths[OF w c a, of 0, unfolded k0 k r len u]
  have n: "\<forall>m. 0 < m \<and> m < length [S ''/data/x.pdf'', S ''/data/z.pdf'']
             \<longrightarrow> path_join (S ''/tmp/run'') (basename ([S ''/data/x.pdf'', S ''/data/z.pdf''] ! m))
                   \<noteq> path_join (S ''/tmp/run'') (basename ([S ''/data/x.pdf'', S ''/data/z.pdf''] ! 0))"
  proof (intro allI impI)
    fix m :: nat assume "0 < m \<and> m < length [S ''/data/x.pdf'', S ''/data/z.pdf'']"
    then have "m = 1" by simp
    then show "path_join (S ''/tmp/run'') (basename ([S ''/data/x.pdf'', S ''/data/z.pdf''] ! m))
                   \<noteq> path_join (S ''/tmp/run'') (basename ([S ''/data/x.pdf'', S ''/data/z.pdf''] ! 0))"
      using d by simp
  qed
  from t have 1: "snd (step_extract env_ok (S ''/tmp/run'') three_files mixed_zip_files s_zip)
     = Inr [S ''/tmp/run/a.pdf'', S ''/tmp/run/b.pdf'', S ''/tmp/run/c.pdf'',
            S ''/tmp/run/x.pdf'', S ''/tmp/run/z.pdf'']" by blast
  from t have 2: "events (fst (step_extract env_ok (S ''/tmp/run'') three_files mixed_zip_files s_zip))
     = [UpdateStep ''extract'' ''running'' None,
        SetStepProgress ''extract'' (pct env_ok 1 3), SetStepProgress ''extract'' (pct env_ok 2 3),
        SetStepProgress ''extract'' (pct env_ok 3 3),
        UpdateStep ''extract'' ''error'' (Some (S ''Invalid zip file path: relative/y.pdf'')),
        UpdateStep ''extract'' ''error'' (Some (S ''Zip file not found: /data/missing.pdf'')),
        UpdateStep ''extract'' ''error'' (Some (S ''Invalid zip file path: 42'')),
        CompleteStep ''extract'']"
    by (simp add: e)
  from t n have "disk (fst (step_extract env_ok (S ''/tmp/run'') three_files mixed_zip_files s_zip))
                   (path_join (S ''/tmp/run'') (basename ([S ''/data/x.pdf'', S ''/data/z.pdf''] ! 0)))
                 = disk s_zip ([S ''/data/x.pdf'', S ''/data/z.pdf''] ! 0)"
    by simp
  then have 3: "disk (fst (step_extract env_ok (S ''/tmp/run'') three_files mixed_zip_files s_zip))
        (S ''/tmp/run/x.pdf'') = Some (S ''XX'')"
    using d by simp
  from 1 2 3 show ?thesis by blast
qed

section \<open>Compression failures\<close>

subsection \<open>The compress step returns or raises with the compressor\<close>

lemma compress_loop_returns:
  "(\<forall>p\<in>set fps. \<forall>d. \<exists>c. fst (compress E d p) = Inr c) \<Longrightarrow> n = i + length fps \<Longrightarrow>
   \<exists>s' out. compress_loop E n i fps crs res s = (s', Inr out)"
proof (induction fps arbitrary: i crs res s)
  case Nil
  then show ?case by simp
next
  case (Cons file_path rest)
  have n: "0 < n" using Cons.prems(2) by simp
  from Cons.prems(1) have "\<exists>c. fst (compress E (disk s) file_path) = Inr c" by simp
  then obtain c where "fst (compress E (disk s) file_path) = Inr c" by blast
  then obtain d where c: "compress E (disk s) file_path = (Inr c, d)"
    by (cases "compress E (disk s) file_path") auto
  have IH: "\<exists>s' out. compress_loop E n (Suc i) rest crs' res' s1 = (s', Inr out)" for crs' res' s1
    using Cons.IH[of "Suc i" crs' res' s1] Cons.prems by simp
  show ?case using c n IH by (simp add: Let_def percent_pct)
qed

lemma step_compress_returns:
  assumes "\<forall>p\<in>set fps. \<forall>d. \<exists>c. fst (compress E d p) = Inr c"
  shows "\<exists>s' crs res'. step_compress E cfg fps res s = (s', Inr (crs, res'))"
proof (cases "enable_compression cfg \<and> has_compressor E")
  case False
  then show ?thesis by (auto simp: step_compress_def)
next
  case True
  from compress_loop_returns[OF assms, of "length fps" 0 "[]" res "update_step s ''compress'' ''running'' None"]
  obtain s1 out where
    "compress_loop E (length fps) 0 fps [] res (update_step s ''compress'' ''running'' None) = (s1, Inr out)"
    by auto
  with True show ?thesis by (cases out) (simp add: step_compress_def)
qed

lemma compress_loop_raises:
  "p \<in> set fps \<Longrightarrow> (\<forall>d. \<exists>e. fst (compress E d p) = Inl e) \<Longrightarrow> n = i + length fps \<Longrightarrow>
   \<exists>s' e. compress_loop E n i fps crs res s = (s', Inl e)"
proof (induction fps arbitrary: i crs res s)
  case Nil
  then show ?case by simp
next
  case (Cons file_path rest)
  have n: "0 < n" using Cons.prems(3) by simp
  obtain r d where c: "compress E (disk s) file_path = (r, d)"
    by (cases "compress E (disk s) file_path") auto
  show ?case
  proof (cases r)
    case (Inl e)
    with c show ?thesis by simp
  next
    case (Inr comp_result)
    with c Cons.prems(2) have "file_path \<noteq> p" by (metis fst_conv sum.distinct(1))
    with Cons.prems(1) have p: "p \<in> set rest" by simp
    have IH: "\<exists>s' e. compress_loop E n (Suc i) rest crs' res' s1 = (s', Inl e)" for crs' res' s1
      using Cons.IH[OF p Cons.prems(2), of "Suc i" crs' res' s1] Cons.prems(3) by simp
    show ?thesis using c Inr n IH by (simp add: Let_def percent_pct)
  qed
qed

lemma step_compress_raises:
  assumes "enable_compression cfg" "has_compressor E" "p \<in> set fps"
      and "\<forall>d. \<exists>e. fst (compress E d p) = Inl e"
  shows "\<exists>e. snd (step_compress E cfg fps res s) = Inl e"
proof -
  from compress_loop_raises[OF assms(3,4), of "length fps" 0 "[]" res
        "update_step s ''compress'' ''running'' None"]
  obtain s1 e where
    "compress_loop E (length fps) 0 fps [] res (update_step s ''compress'' ''running'' None) = (s1, Inl e)"
    by auto
  with assms(1,2) show ?thesis by (simp add: step_compress_def)
qed

subsection \<open>The later steps return when their collaborators do\<close>

lemma exhibit_num_returns: "i < 1114073 \<Longrightarrow> \<exists>num. exhibit_num st i = Inr num"
proof -
  assume i: "i < 1114073"
  have r: "to_roman (int i + 1) = Inr (roman_canonical (Suc i))"
    using to_roman_canonical[of "Suc i"] by (simp add: add.commute)
  from i show ?thesis by (simp add: exhibit_num_def py_chr_def r)
qed

lemma keeps_refl: "keeps d d"
  by (simp add: keeps_def)

lemma keeps_trans: "keeps d d' \<Longrightarrow> keeps d' d'' \<Longrightarrow> keeps d d''"
  by (simp add: keeps_def)

lemma usable_keeps: "usable E d x \<Longrightarrow> keeps d d' \<Longrightarrow> usable E d' x"
  by (simp add: usable_def keeps_def)

lemma cover_call:
  assumes "others_succeed E cfg tmp_dir fps" "p \<in> set fps"
      and "add_exhibit_number_with_cover E d p num t su tx cb = (r, d')"
  shows "keeps d d'" "r = Inr nf \<Longrightarrow> usable E d' nf"
proof -
  from assms(1,2) have
    "keeps d (snd (add_exhibit_number_with_cover E d p num t su tx cb))
     \<and> (\<forall>nf. fst (add_exhibit_number_with_cover E d p num t su tx cb) = Inr nf
                 \<longrightarrow> usable E (snd (add_exhibit_number_with_cover E d p num t su tx cb)) nf)"
    unfolding others_succeed_def by blast
  with assms(3) show "keeps d d'" "r = Inr nf \<Longrightarrow> usable E d' nf" by simp_all
qed

lemma cover_call_number_only:
  assumes "others_succeed E cfg tmp_dir fps" "p \<in> set fps"
  shows "\<exists>nf d'. add_exhibit_number_with_cover E d p num None None None None = (Inr nf, d')"
proof -
  from assms have "\<exists>nf. fst (add_exhibit_number_with_cover E d p num None None None None) = Inr nf"
    unfolding others_succeed_def by blast
  then show ?thesis by (cases "add_exhibit_number_with_cover E d p num None None None None") auto
qed

lemma numbered_file_of_returns:
  assumes os: "others_succeed E cfg tmp_dir fps" and p: "p \<in> set fps"
  shows "\<exists>nf d'. numbered_file_of E cfg d p num info cb = (Inr nf, d') \<and> keeps d d' \<and> usable E d' nf"
proof -
  define attempt where "attempt =
            (if include_full_text_images cfg then
               (case cb of
                  None \<Rightarrow> (Inl (Exn ''NameError'' (S ''name 'content_bytes' is not defined'')), d)
                | Some b \<Rightarrow>
                    (let extracted_text =
                           (case extract_text_from_pdf E b of Inl e \<Rightarrow> None | Inr t \<Rightarrow> t)
                     in add_exhibit_number_with_cover E d p num
                          (Some (title info)) (summary info) extracted_text (Some b)))
             else add_exhibit_number_with_cover E d p num
                    (Some (title info)) (summary info) None None)"
  obtain r1 d1 where a: "attempt = (r1, d1)" by (cases attempt) auto
  have nfo: "numbered_file_of E cfg d p num info cb =
     (case r1 of Inr numbered_file \<Rightarrow> (Inr numbered_file, d1)
               | Inl e \<Rightarrow> add_exhibit_number_with_cover E d1 p num None None None None)"
    using a unfolding numbered_file_of_def attempt_def[symmetric] by (simp add: Let_def split: sum.splits)
  have k1: "keeps d d1" and u1: "\<And>nf. r1 = Inr nf \<Longrightarrow> usable E d1 nf"
  proof -
    consider (unbound) "include_full_text_images cfg" "cb = None"
      | (full) b where "include_full_text_images cfg" "cb = Some b"
      | (plain) "\<not> include_full_text_images cfg"
      by (cases cb) auto
    then have "keeps d d1 \<and> (\<forall>nf. r1 = Inr nf \<longrightarrow> usable E d1 nf)"
    proof cases
      case unbound
      with a show ?thesis by (auto simp: attempt_def keeps_refl)
    next
      case full
      with a have "add_exhibit_number_with_cover E d p num (Some (title info)) (summary info)
          (case extract_text_from_pdf E b of Inl e \<Rightarrow> None | Inr t \<Rightarrow> t) (Some b) = (r1, d1)"
        by (simp add: attempt_def Let_def)
      from cover_call[OF os p this] show ?thesis by blast
    next
      case plain
      with a have "add_exhibit_number_with_cover E d p num (Some (title info)) (summary info)
          None None = (r1, d1)"
        by (simp add: attempt_def)
      from cover_call[OF os p this] show ?thesis by blast
    qed
    then show "keeps d d1" "\<And>nf. r1 = Inr nf \<Longrightarrow> usable E d1 nf" by simp_all
  qed
  show ?thesis
  proof (cases r1)
    case (Inr nf)
    with nfo k1 u1 show ?thesis by simp
  next
    case (Inl e)
    from cover_call_number_only[OF os p, of d1 num] obtain nf d' where
      f: "add_exhibit_number_with_cover E d1 p num None None None None = (Inr nf, d')" by blast
    from cover_call[OF os p f] have "keeps d1 d'" "usable E d' nf" by simp_all
    with nfo Inl f k1 show ?thesis by (auto intro: keeps_trans)
  qed
qed

lemma number_loop_returns:
  assumes os: "others_succeed E cfg tmp_dir all_fps"
  shows "set fps \<subseteq> set all_fps \<Longrightarrow> n = i + length fps \<Longrightarrow> i + length fps \<le> 1114073 \<Longrightarrow>
     (\<forall>x\<in>set nfs. usable E (disk s) x) \<Longrightarrow>
     \<exists>s' nfs' el' res'.
        number_loop E cfg n crs i fps (nfs, el, res, cb) s = (s', Inr (nfs', el', res'))
        \<and> (\<forall>x\<in>set nfs'. usable E (disk s') x)"
proof (induction fps arbitrary: i nfs el res cb s)
  case Nil
  then show ?case by simp
next
  case (Cons file_path rest)
  have n: "0 < n" using Cons.prems(2) by simp
  have p: "file_path \<in> set all_fps" using Cons.prems(1) by simp
  from exhibit_num_returns[of i "numbering_style cfg"] Cons.prems(3)
  obtain num where num: "exhibit_num (numbering_style cfg) i = Inr num" by auto
  let ?info0 = "initial_info E (disk s) file_path num"
  obtain info cb' where ai: "ai_analysis E cfg (disk s) file_path ?info0 cb = (info, cb')"
    by (cases "ai_analysis E cfg (disk s) file_path ?info0 cb") auto
  from numbered_file_of_returns[OF os p, of "disk s" num info cb'] obtain nf d where
    nf: "numbered_file_of E cfg (disk s) file_path num info cb' = (Inr nf, d)"
      and k: "keeps (disk s) d" and u: "usable E d nf"
    by blast
  define info' where "info' =
     (if i < length crs then
        info\<lparr>compression :=
               Some \<lparr>reduction = get_or 0 (cr_reduction_percent (crs ! i)),
                     cmethod = get_or (S ''none'') (cr_method (crs ! i))\<rparr>\<rparr>
      else info)"
  let ?s1 = "set_step_progress (s\<lparr>disk := d\<rparr>) ''number'' (pct E (Suc i) n)"
  have step: "number_loop E cfg n crs i (file_path # rest) (nfs, el, res, cb) s
      = number_loop E cfg n crs (Suc i) rest
          (nfs @ [nf], el @ [info'], res\<lparr>total_pages := total_pages res + pages info'\<rparr>, cb') ?s1"
    using num ai nf n by (simp add: Let_def percent_pct info'_def)
  have us: "\<forall>x\<in>set (nfs @ [nf]). usable E (disk ?s1) x"
    using Cons.prems(4) k u by (auto simp: set_step_progress_simps intro: usable_keeps)
  have "set rest \<subseteq> set all_fps" "n = Suc i + length rest" "Suc i + length rest \<le> 1114073"
    using Cons.prems by simp_all
  from Cons.IH[OF this us] show ?case unfolding step by blast
qed

lemma step_number_returns:
  assumes "others_succeed E cfg tmp_dir fps" "length fps \<le> 1114073"
  shows "\<exists>s' nfs el res'.
        step_number E cfg fps crs res s = (s', Inr (nfs, el, res'))
        \<and> (\<forall>x\<in>set nfs. usable E (disk s') x)"
proof -
  from number_loop_returns[OF assms(1), of fps "length fps" 0 "[]"
         "update_step s ''number'' ''running'' None" crs "[]" res None] assms(2)
  obtain s1 nfs el res' where
    "number_loop E cfg (length fps) crs 0 fps ([], [], res, None)
        (update_step s ''number'' ''running'' None) = (s1, Inr (nfs, el, res'))"
    "\<forall>x\<in>set nfs. usable E (disk s1) x"
    by auto
  then show ?thesis by (simp add: step_number_def complete_step_simps)
qed

lemma step_toc_returns:
  assumes "others_succeed E cfg tmp_dir fps" "\<forall>x\<in>set nfs. usable E (disk s) x"
  shows "\<exists>s' nfs'. step_toc E cfg tmp_dir el nfs s = (s', Inr nfs')
           \<and> (\<forall>x\<in>set nfs'. usable E (disk s') x)"
proof (cases "add_toc cfg")
  case False
  with assms(2) show ?thesis by (simp add: step_toc_def complete_step_simps)
next
  case True
  let ?g = "generate_table_of_contents E (disk s) el (visa_type cfg) (path_join tmp_dir (S ''TOC.pdf''))"
  from assms(1) True obtain toc_file where
    t: "fst ?g = Inr toc_file" "usable E (snd ?g) toc_file" "keeps (disk s) (snd ?g)"
    unfolding others_succeed_def by blast
  then have g: "?g = (Inr toc_file, snd ?g)" by (simp add: prod_eq_iff)
  have "step_toc E cfg tmp_dir el nfs s
      = (complete_step ((update_step s ''toc'' ''running'' None)\<lparr>disk := snd ?g\<rparr>) ''toc'',
         Inr (toc_file # nfs))"
    using True by (subst step_toc_def) (simp add: Let_def update_step_simps, subst g, simp)
  moreover have "\<forall>x\<in>set (toc_file # nfs). usable E (snd ?g) x"
    using t(2,3) assms(2) by (auto intro: usable_keeps)
  ultimately show ?thesis by (simp add: complete_step_simps)
qed

lemma step_cover_keeps:
  assumes "others_succeed E cfg tmp_dir fps"
  shows "keeps (disk s) (disk (fst (step_cover E cfg tmp_dir el res s)))"
proof -
  from assms have k: "keeps d (snd (generate_cover_letter E d el p))" for d p
    unfolding others_succeed_def by blast
  show ?thesis
    using k[of "disk s" "path_join tmp_dir (S ''Cover_Letter.docx'')"]
    by (auto simp: step_cover_def Let_def keeps_refl update_step_simps complete_step_simps
             split: prod.splits option.splits)
qed

lemma step_filing_instructions_keeps:
  assumes "others_succeed E cfg tmp_dir fps"
  shows "keeps (disk s) (disk (fst (step_filing_instructions E cfg tmp_dir el res s)))"
proof -
  from assms have k: "keeps d (snd (generate_filing_instructions E d el p))" for d p
    unfolding others_succeed_def by blast
  show ?thesis
    using k[of "disk s" "path_join tmp_dir (S ''Filing_Instructions.docx'')"]
    by (auto simp: step_filing_instructions_def Let_def keeps_refl update_step_simps complete_step_simps
             split: prod.splits option.splits)
qed

lemma copy_usable:
  assumes "usable E d x" "\<not> is_dir E (final_output_path E)" "writable E (final_output_path E)"
  shows "\<exists>d'. copy E d x (final_output_path E) = Inr d'"
  using assms by (auto simp: usable_def copy_def write_file_def)

lemma step_merge_returns:
  assumes os: "others_succeed E cfg tmp_dir fps" and us: "\<forall>x\<in>set nfs. usable E (disk s) x"
  shows "\<exists>s' res'. step_merge E cfg tmp_dir nfs res s = (s', Inr res')"
proof -
  from os have w: "\<not> is_dir E (final_output_path E)" "writable E (final_output_path E)"
    unfolding others_succeed_def by blast+
  show ?thesis
  proof (cases nfs)
    case Nil
    then show ?thesis by (simp add: step_merge_def Let_def)
  next
    case (Cons first_file rest)
    show ?thesis
    proof (cases "merge_pdfs cfg")
      case False
      from us Cons have "usable E (disk s) first_file" by simp
      from copy_usable[OF this w] obtain d' where
        "copy E (disk s) first_file (final_output_path E) = Inr d'" by blast
      with Cons False show ?thesis by (simp add: step_merge_def Let_def update_step_simps)
    next
      case True
      let ?m = "pdf_merge_pdfs E (disk s) nfs (path_join tmp_dir (S ''final_package.pdf''))"
      from os True obtain merged_file where
        m: "fst ?m = Inr merged_file" "usable E (snd ?m) merged_file"
        unfolding others_succeed_def by blast
      then have g: "?m = (Inr merged_file, snd ?m)" by (simp add: prod_eq_iff)
      from copy_usable[OF m(2) w] obtain d' where
        c: "copy E (snd ?m) merged_file (final_output_path E) = Inr d'" by blast
      have "step_merge E cfg tmp_dir nfs res s
         = (complete_step ((update_step s ''merge'' ''running'' None)\<lparr>disk := d'\<rparr>) ''merge'',
            Inr (res\<lparr>output_file := Some (final_output_path E)\<rparr>))"
        using True Cons c
        by (subst step_merge_def) (simp add: Let_def update_step_simps, subst g[unfolded Cons], simp)
      then show ?thesis by blast
    qed
  qed
qed

lemma step_extract_returns:
  assumes "\<forall>f\<in>set files. \<not> is_dir E (path_join tmp_dir (name f)) \<and> writable E (path_join tmp_dir (name f))"
  shows "\<exists>s'. step_extract E tmp_dir files [] s = (s', Inr (map (\<lambda>f. path_join tmp_dir (name f)) files))"
proof -
  from extract_files_returns[OF assms, of "length files" 0 "[]" "update_step s ''extract'' ''running'' None"]
  obtain s1 where
    "extract_files E tmp_dir (length files) 0 files [] (update_step s ''extract'' ''running'' None)
       = (s1, Inr (map (\<lambda>f. path_join tmp_dir (name f)) files))"
    by auto
  then show ?thesis by (simp add: step_extract_def)
qed

lemma process_body_total:
  assumes wr: "\<forall>f\<in>set files. \<not> is_dir E (path_join tmp_dir (name f)) \<and> writable E (path_join tmp_dir (name f))"
      and cmp: "\<forall>d p. \<exists>c. fst (compress E d p) = Inr c"
      and len: "length files \<le> 1114073"
      and os: "others_succeed E cfg tmp_dir (map (\<lambda>f. path_join tmp_dir (name f)) files)"
  shows "\<exists>s' r. process_body E cfg files [] tmp_dir s = (s', Inr r)"
proof -
  let ?fps = "map (\<lambda>f. path_join tmp_dir (name f)) files"
  from step_extract_returns[OF wr] obtain s1 where
    e1: "step_extract E tmp_dir files [] s = (s1, Inr ?fps)" by blast
  from cmp have "\<forall>p\<in>set ?fps. \<forall>d. \<exists>c. fst (compress E d p) = Inr c" by blast
  from step_compress_returns[OF this] obtain s2 crs res2 where
    e2: "step_compress E cfg ?fps result0 s1 = (s2, Inr (crs, res2))" by blast
  from len have "length ?fps \<le> 1114073" by simp
  from step_number_returns[OF os this] obtain s3 nfs el res3 where
    e3: "step_number E cfg ?fps crs res2 s2 = (s3, Inr (nfs, el, res3))"
    and u3: "\<forall>x\<in>set nfs. usable E (disk s3) x" by blast
  from step_toc_returns[OF os u3] obtain s4 nfs' where
    e4: "step_toc E cfg tmp_dir el nfs s3 = (s4, Inr nfs')"
    and u4: "\<forall>x\<in>set nfs'. usable E (disk s4) x" by blast
  obtain s5 res5 where e5: "step_cover E cfg tmp_dir el res3 s4 = (s5, res5)"
    by (cases "step_cover E cfg tmp_dir el res3 s4") auto
  from step_cover_keeps[OF os, of s4 el res3] e5 have k5: "keeps (disk s4) (disk s5)" by simp
  obtain s6 res6 where e6: "step_filing_instructions E cfg tmp_dir el res5 s5 = (s6, res6)"
    by (cases "step_filing_instructions E cfg tmp_dir el res5 s5") auto
  from step_filing_instructions_keeps[OF os, of s5 el res5] e6 have k6: "keeps (disk s5) (disk s6)"
    by simp
  from u4 k5 k6 have u6: "\<forall>x\<in>set nfs'. usable E (disk s6) x" by (blast intro: usable_keeps)
  from step_merge_returns[OF os u6] obtain s7 res7 where
    e7: "step_merge E cfg tmp_dir nfs' res6 s6 = (s7, Inr res7)" by blast
  obtain s8 res8 where e8: "step_finalize E cfg el crs res7 s7 = (s8, res8)"
    by (cases "step_finalize E cfg el crs res7 s7") auto
  have "process_body E cfg files [] tmp_dir s = (s8, Inr res8)"
    by (simp add: process_body_def e1 e2 e3 e4 e5 e6 e7 e8)
  then show ?thesis by blast
qed

text \<open>
  Claim C1, as the code has it.  Take a run on uploads that can be written, with compression
  enabled and a compressor present, and one of its files.

  When no \<open>compress\<close> call raises and the call on that file returns a result whose \<open>success\<close> is
  false, the run completes, provided the other collaborators succeed: it returns, the overall
  status is \<open>complete\<close>, all eight steps are completed, and the exhibit list of the session
  holds one exhibit for each upload, in order, under the upload's file name.

  When the \<open>compress\<close> call on that file raises, the run does not complete: the call stands in no
  \<open>try\<close> of its own, the run ends in \<open>RuntimeError("Failed to process exhibits: ...")\<close> with
  the message of an exception that a \<open>compress\<close> call has raised, and the overall status is
  \<open>error\<close>.
\<close>

theorem compression_failure_containment:
  assumes "mkdtemp E = Inr tmp_dir"
      and "enable_compression cfg" and "has_compressor E"
      and "\<forall>f\<in>set files. \<not> is_dir E (path_join tmp_dir (name f)) \<and> writable E (path_join tmp_dir (name f))"
      and "j < length files"
  shows "((\<forall>d p. \<exists>c. fst (compress E d p) = Inr c)
           \<and> (\<forall>d c. fst (compress E d (path_join tmp_dir (name (files ! j)))) = Inr c \<longrightarrow> \<not> cr_success c)
           \<and> length files \<le> 1114073
           \<and> others_succeed E cfg tmp_dir (map (\<lambda>f. path_join tmp_dir (name f)) files)
          \<longrightarrow> (\<exists>r el.
                 snd (process_func E cfg files [] (fresh s)) = Inr r
                 \<and> overall_status (snd (process_func E cfg files [] (fresh s))) = ''complete''
                 \<and> completed (events (fst (process_func E cfg files [] (fresh s)))) = step_names
                 \<and> ss_exhibit_list (fst (process_func E cfg files [] (fresh s))) = Some el
                 \<and> length el = length files
                 \<and> map filename el = map (\<lambda>f. basename (path_join tmp_dir (name f))) files))
       \<and> ((\<forall>d. \<exists>e. fst (compress E d (path_join tmp_dir (name (files ! j)))) = Inl e)
          \<longrightarrow> (\<exists>e. (\<exists>d p. fst (compress E d p) = Inl e)
                 \<and> snd (process_func E cfg files [] (fresh s))
                     = Inl (Exn ''RuntimeError'' (S ''Failed to process exhibits: '' @ exn_msg e))
                 \<and> overall_status (snd (process_func E cfg files [] (fresh s))) = ''error''))"
proof (intro conjI impI)
  let ?g = "\<lambda>f. path_join tmp_dir (name f)"
  assume h: "(\<forall>d p. \<exists>c. fst (compress E d p) = Inr c)
           \<and> (\<forall>d c. fst (compress E d (path_join tmp_dir (name (files ! j)))) = Inr c \<longrightarrow> \<not> cr_success c)
           \<and> length files \<le> 1114073
           \<and> others_succeed E cfg tmp_dir (map (\<lambda>f. path_join tmp_dir (name f)) files)"
  then have cmp: "\<forall>d p. \<exists>c. fst (compress E d p) = Inr c" and len: "length files \<le> 1114073"
    and os: "others_succeed E cfg tmp_dir (map ?g files)" by simp_all
  from process_body_total[OF assms(4) cmp len os, of "fresh s"] obtain s' r where
    pb: "process_body E cfg files [] tmp_dir (fresh s) = (s', Inr r)" by blast
  from process_func_body(1)[OF assms(1), of cfg files "[]" "fresh s"] pb
  have st: "fst (process_func E cfg files [] (fresh s)) = s'" by simp
  from process_func_body(2)[OF assms(1), of cfg files "[]" "fresh s" r] pb
  have rs: "snd (process_func E cfg files [] (fresh s)) = Inr r" by simp
  have f: "events (fresh s) = []" by (simp add: fresh_def)
  from returning_run[OF pb] obtain fps el where
    el: "snd (step_extract E tmp_dir files [] (fresh s)) = Inr fps" "ss_exhibit_list s' = Some el"
        "length el = length fps" "map filename el = map basename fps"
    by blast
  from step_extract_returns[OF assms(4), of "fresh s"] el(1) have fps: "fps = map ?g files" by auto
  show "\<exists>r el.
                 snd (process_func E cfg files [] (fresh s)) = Inr r
                 \<and> overall_status (snd (process_func E cfg files [] (fresh s))) = ''complete''
                 \<and> completed (events (fst (process_func E cfg files [] (fresh s)))) = step_names
                 \<and> ss_exhibit_list (fst (process_func E cfg files [] (fresh s))) = Some el
                 \<and> length el = length files
                 \<and> map filename el = map (\<lambda>f. basename (path_join tmp_dir (name f))) files"
    using rs st process_body_returns(1)[OF pb f] el(2,3,4) fps
    by (intro exI[of _ r] exI[of _ el]) (simp add: overall_status_def comp_def)
next
  let ?g = "\<lambda>f. path_join tmp_dir (name f)"
  assume h: "\<forall>d. \<exists>e. fst (compress E d (path_join tmp_dir (name (files ! j)))) = Inl e"
  from step_extract_returns[OF assms(4), of "fresh s"] obtain s1 where
    e1: "step_extract E tmp_dir files [] (fresh s) = (s1, Inr (map ?g files))" by blast
  have p: "?g (files ! j) \<in> set (map ?g files)" using assms(5) by simp
  from step_compress_raises[OF assms(2,3) p h, of result0 s1] obtain e where
    e2: "snd (step_compress E cfg (map ?g files) result0 s1) = Inl e" by blast
  from step_compress_Inl[OF e2] have src: "\<exists>d p. fst (compress E d p) = Inl e" .
  from compress_raise_aborts[OF e1 e2]
  have "snd (process_body E cfg files [] tmp_dir (fresh s)) = Inl e" .
  from process_func_body(3)[OF assms(1) this]
  have pf: "snd (process_func E cfg files [] (fresh s))
                = Inl (Exn ''RuntimeError'' (S ''Failed to process exhibits: '' @ exn_msg e))" .
  then have "overall_status (snd (process_func E cfg files [] (fresh s))) = ''error''"
    by (simp add: overall_status_def)
  with src pf show "\<exists>e. (\<exists>d p. fst (compress E d p) = Inl e)
                 \<and> snd (process_func E cfg files [] (fresh s))
                     = Inl (Exn ''RuntimeError'' (S ''Failed to process exhibits: '' @ exn_msg e))
                 \<and> overall_status (snd (process_func E cfg files [] (fresh s))) = ''error''"
    by blast
qed


text \<open>
  The two runs of three files with the default configuration: the compressor reports a failure
  on \<open>b.pdf\<close> in the first and raises on it in the second.
\<close>

theorem compression_failure_containment_witness:
  "mkdtemp env_compress_fails = Inr (S ''/tmp/run'')
   \<and> enable_compression cfg_default \<and> has_compressor env_compress_fails
   \<and> map_option cr_success
       (case fst (compress env_compress_fails Map.empty (S ''/tmp/run/b.pdf'')) of
          Inl e \<Rightarrow> None | Inr c \<Rightarrow> Some c) = Some False
   \<and> others_succeed env_compress_fails cfg_default (S ''/tmp/run'')
       [S ''/tmp/run/a.pdf'', S ''/tmp/run/b.pdf'', S ''/tmp/run/c.pdf'']
   \<and> snd (process_func env_compress_fails cfg_default three_files [] (fresh s_init))
       = Inr (result0\<lparr>total_pages := 6, original_size := 400, compressed_size := 200,
                      output_file := Some (final_output_path env_ok)\<rparr>)
   \<and> overall_status (snd (process_func env_compress_fails cfg_default three_files [] (fresh s_init)))
       = ''complete''
   \<and> map_option length
       (ss_exhibit_list (fst (process_func env_compress_fails cfg_default three_files [] (fresh s_init))))
       = Some 3
   \<and> fst (compress env_compress_raises Map.empty (S ''/tmp/run/b.pdf''))
       = Inl (Exn ''OSError'' (S ''compression failed''))
   \<and> snd (process_func env_compress_raises cfg_default three_files [] (fresh s_init))
       = Inl (Exn ''RuntimeError'' (S ''Failed to process exhibits: compression failed''))
   \<and> overall_status (snd (process_func env_compress_raises cfg_default three_files [] (fresh s_init)))
       = ''error''"
proof -
  let ?tmp = "S ''/tmp/run''"
  let ?ps = "[S ''/tmp/run/a.pdf'', S ''/tmp/run/b.pdf'', S ''/tmp/run/c.pdf'']"
  have ps: "map (\<lambda>f. path_join ?tmp (name f)) three_files = ?ps" by code_simp
  have b: "path_join ?tmp (name (three_files ! 1)) = S ''/tmp/run/b.pdf''"
    "basename (S ''/tmp/run/b.pdf'') = S ''b.pdf''" by code_simp+
  have len: "length three_files = 3" "(1::nat) < 3" by (simp_all add: three_files_def)
  have m: "mkdtemp env_compress_fails = Inr ?tmp" "mkdtemp env_compress_raises = Inr ?tmp"
    by (simp_all add: env_compress_fails_def env_compress_raises_def env_ok_def)
  have c: "enable_compression cfg_default" "has_compressor env_compress_fails"
    "has_compressor env_compress_raises"
    by (simp_all add: cfg_default_def env_compress_fails_def env_compress_raises_def env_ok_def)
  have w: "\<forall>f\<in>set three_files. \<not> is_dir env_compress_fails (path_join ?tmp (name f))
                               \<and> writable env_compress_fails (path_join ?tmp (name f))"
    "\<forall>f\<in>set three_files. \<not> is_dir env_compress_raises (path_join ?tmp (name f))
                               \<and> writable env_compress_raises (path_join ?tmp (name f))"
    unfolding Ball_set by code_simp+
  have h1: "\<forall>d p. \<exists>c. fst (compress env_compress_fails d p) = Inr c"
    by (simp add: env_compress_fails_def env_ok_def)
  have h2: "\<forall>d c. fst (compress env_compress_fails d (path_join ?tmp (name (three_files ! 1)))) = Inr c
              \<longrightarrow> \<not> cr_success c"
    unfolding b(1) by (auto simp: env_compress_fails_def b(2))
  have h2': "\<forall>d. \<exists>e. fst (compress env_compress_raises d (path_join ?tmp (name (three_files ! 1)))) = Inl e"
    unfolding b(1) by (simp add: env_compress_raises_def b(2))
  have paths: "list_all (\<lambda>p. p @ S ''.numbered'' \<noteq> S ''/tmp'' \<and> p @ S ''.numbered'' \<noteq> S ''/tmp/run''
                          \<and> p @ S ''.numbered'' \<noteq> final_output_path env_ok) ?ps"
    "path_join ?tmp (S ''TOC.pdf'') \<noteq> S ''/tmp'' \<and> path_join ?tmp (S ''TOC.pdf'') \<noteq> S ''/tmp/run''
       \<and> path_join ?tmp (S ''TOC.pdf'') \<noteq> final_output_path env_ok"
    "path_join ?tmp (S ''final_package.pdf'') \<noteq> S ''/tmp''
       \<and> path_join ?tmp (S ''final_package.pdf'') \<noteq> S ''/tmp/run''
       \<and> path_join ?tmp (S ''final_package.pdf'') \<noteq> final_output_path env_ok"
    "final_output_path env_ok \<noteq> S ''/tmp'' \<and> final_output_path env_ok \<noteq> S ''/tmp/run''"
    by code_simp+
  have fo: "final_output_path env_compress_fails = final_output_path env_ok"
    by (simp add: final_output_path_def env_compress_fails_def)
  have os: "others_succeed env_compress_fails cfg_default ?tmp ?ps"
    unfolding others_succeed_def usable_def keeps_def fo
    using paths by (simp add: env_compress_fails_def env_ok_def cfg_default_def)
  have s: "map_option cr_success
       (case fst (compress env_compress_fails Map.empty (S ''/tmp/run/b.pdf'')) of
          Inl e \<Rightarrow> None | Inr c \<Rightarrow> Some c) = Some False"
    by code_simp
  have r: "snd (process_func env_compress_fails cfg_default three_files [] (fresh s_init))
       = Inr (result0\<lparr>total_pages := 6, original_size := 400, compressed_size := 200,
                      output_file := Some (final_output_path env_ok)\<rparr>)"
    by code_simp
  have x: "fst (compress env_compress_raises Map.empty (S ''/tmp/run/b.pdf''))
       = Inl (Exn ''OSError'' (S ''compression failed''))"
    by code_simp
  have y: "snd (process_func env_compress_raises cfg_default three_files [] (fresh s_init))
       = Inl (Exn ''RuntimeError'' (S ''Failed to process exhibits: compression failed''))"
    by code_simp
  have j: "1 < length three_files" by (simp add: three_files_def)
  have p1: "(\<forall>d p. \<exists>c. fst (compress env_compress_fails d p) = Inr c)
           \<and> (\<forall>d c. fst (compress env_compress_fails d (path_join ?tmp (name (three_files ! 1)))) = Inr c
                  \<longrightarrow> \<not> cr_success c)
           \<and> length three_files \<le> 1114073
           \<and> others_succeed env_compress_fails cfg_default ?tmp
                (map (\<lambda>f. path_join ?tmp (name f)) three_files)"
    using h1 h2 os by (simp add: ps len(1))
  from compression_failure_containment[OF m(1) c(1,2) w(1) j, of s_init, THEN conjunct1, THEN mp, OF p1]
  obtain r' el where
    t1: "overall_status (snd (process_func env_compress_fails cfg_default three_files [] (fresh s_init)))
           = ''complete''"
        "ss_exhibit_list (fst (process_func env_compress_fails cfg_default three_files [] (fresh s_init)))
           = Some el"
        "length el = 3"
    by (auto simp: len(1))
  from compression_failure_containment[OF m(2) c(1,3) w(2) j, of s_init, THEN conjunct2, THEN mp, OF h2']
  have t2: "overall_status (snd (process_func env_compress_raises cfg_default three_files [] (fresh s_init)))
           = ''error''"
    by blast
  from t1 have l: "map_option length
       (ss_exhibit_list (fst (process_func env_compress_fails cfg_default three_files [] (fresh s_init))))
       = Some 3" by simp
  from m(1) c(1,2) s os r t1(1) l x y t2 show ?thesis by blast
qed

text \<open>
  Claim C1 as stated fails: with three uploads and compression enabled, a \<open>compress\<close> call
  that raises for the second file ends the run with the status \<open>error\<close> and no exhibit list.
\<close>

theorem compression_raise_counterexample:
  "enable_compression cfg_default \<and> has_compressor env_compress_raises
   \<and> length three_files = 3
   \<and> fst (compress env_compress_raises Map.empty (S ''/tmp/run/b.pdf''))
       = Inl (Exn ''OSError'' (S ''compression failed''))
   \<and> overall_status (snd (process_func env_compress_raises cfg_default three_files [] (fresh s_init)))
       = ''error''
   \<and> ss_exhibit_list (fst (process_func env_compress_raises cfg_default three_files [] (fresh s_init)))
       = None"
  by code_simp

end
